theory Spec2Isabelle
  imports Complex_Main "HOL-Library.Multiset" "HOL-Library.Sublist"
begin

section \<open>Membership test on a sorted range (\<open>in\<close>, Solver.cc)\<close>

text \<open>
  \<^verbatim>\<open>int in(int* begin, int* end, int val)\<close> searches a range of an \<open>int\<close> array by
  bisection. The array is a list; the two pointers are offsets into it (their difference
  is the signed pointer difference of the source). The name \<open>in\<close> is a keyword, hence
  the suffix.
\<close>

function in_impl :: "int list \<Rightarrow> int \<Rightarrow> int \<Rightarrow> int \<Rightarrow> int" where
  "in_impl a begin end val =
     (if end - begin < 1 then 0
      else if end - begin = 1 then (if a ! nat begin = val then 1 else 0)
      else let m = begin + (end - begin) div 2
           in if a ! nat m \<le> val then in_impl a m end val else in_impl a begin m val)"
  by pat_completeness auto
termination
  by (relation "measure (\<lambda>(a, b, e, v). nat (e - b))") auto

declare in_impl.simps [simp del]

definition range_of :: "int list \<Rightarrow> int \<Rightarrow> int \<Rightarrow> int list" where
  "range_of a begin end = take (nat (end - begin)) (drop (nat begin) a)"

section \<open>Doubles\<close>

text \<open>
  A value of type \<^verbatim>\<open>double\<close> is modelled by the real number it denotes. Where the source
  computes with doubles a value that it converts to an \<^verbatim>\<open>int\<close> (the restart limit, the
  counter \<^verbatim>\<open>learntsize_adjust_cnt\<close>), the rounding of the arithmetic is modelled:
  \<open>dbl_round x\<close> is the double nearest to \<open>x\<close> (IEEE 754 binary64, round to nearest, ties to
  even: 53 significant bits, exponents from -1022 to 1023, subnormal numbers), and \<open>None\<close>
  when that is not a finite number (the exponent found or reached by rounding is 1024). \<open>expo_up\<close> and \<open>expo_down\<close> find the binary exponent,
  \<open>round_even\<close> rounds to an integer. \<open>dbl_mul\<close> is the product of two doubles.

  The function \<^verbatim>\<open>pow\<close> of \<^verbatim>\<open>math.h\<close> is not part of the sources: \<open>dbl_pow\<close> takes it, at
  an integer exponent, as the correctly rounded power.

  \<open>double_to_int\<close> is the conversion \<^verbatim>\<open>(int) d\<close>, also implicit where a double is passed for
  an \<^verbatim>\<open>int\<close> parameter: it truncates towards zero, and it is undefined (\<open>None\<close>) when the
  truncated value is not a value of \<^verbatim>\<open>int\<close>, which has 32 bits.
\<close>

definition round_even :: "real \<Rightarrow> int" where
  "round_even x =
     (let f = \<lfloor>x\<rfloor>; d = x - of_int f
      in if d < 1 / 2 then f else if 1 / 2 < d then f + 1 else if even f then f else f + 1)"

fun expo_up :: "nat \<Rightarrow> real \<Rightarrow> int \<Rightarrow> int" where
  "expo_up 0 a e = e"
| "expo_up (Suc n) a e = (if a < 2 then e else expo_up n (a / 2) (e + 1))"

fun expo_down :: "nat \<Rightarrow> real \<Rightarrow> int \<Rightarrow> int" where
  "expo_down 0 a e = e"
| "expo_down (Suc n) a e = (if 1 \<le> a then e else expo_down n (2 * a) (e - 1))"

definition dbl_round :: "real \<Rightarrow> real option" where
  "dbl_round x =
     (let a = \<bar>x\<bar>;
          e = (if 1 \<le> a then expo_up 1024 a 0 else expo_down 1022 a 0);
          u = 2 powi (e - 52);
          m = round_even (a / u)
      in if 1024 \<le> e \<or> (e = 1023 \<and> m = 2 ^ 53) then None else Some (sgn x * (of_int m * u)))"

definition dbl_mul :: "real \<Rightarrow> real \<Rightarrow> real option" where
  "dbl_mul x y = dbl_round (x * y)"

definition dbl_pow :: "real \<Rightarrow> int \<Rightarrow> real option" where
  "dbl_pow y n = dbl_round (y powi n)"

definition double_to_int :: "real \<Rightarrow> int option" where
  "double_to_int r =
     (let t = (if 0 \<le> r then \<lfloor>r\<rfloor> else \<lceil>r\<rceil>)
      in if - (2 ^ 31) \<le> t \<and> t < 2 ^ 31 then Some t else None)"

section \<open>The restart sequence (\<open>luby\<close>, Solver.cc)\<close>

text \<open>
  \<^verbatim>\<open>static double luby(double y, int x)\<close>. The first loop
  \<^verbatim>\<open>for (size = 1, seq = 0; size < x+1; seq++, size = 2*size+1);\<close> is \<open>luby_up\<close>, the
  second, \<^verbatim>\<open>while (size-1 != x) { size = (size-1)>>1; seq--; x = x % size; }\<close>, is
  \<open>luby_down\<close>; a remainder by zero has no defined result and is \<open>None\<close>. The argument
  \<open>x\<close> is the restart counter, which starts at 0 and only grows, and \<open>size\<close> starts at 1
  and only grows in the first loop: both are naturals here. They are 32-bit \<^verbatim>\<open>int\<close>s in the
  source: at \<open>x = 2^31 - 1\<close> the sum \<^verbatim>\<open>x+1\<close> overflows, which is undefined (\<open>None\<close>); below
  that, \<open>size\<close> stays below \<open>2^31\<close>. The result is \<^verbatim>\<open>pow(y, seq)\<close>.
\<close>

function luby_up :: "nat \<Rightarrow> int \<Rightarrow> nat \<Rightarrow> nat \<times> int" where
  "luby_up sz seq x = (if sz < x + 1 then luby_up (2 * sz + 1) (seq + 1) x else (sz, seq))"
  by pat_completeness auto
termination
  by (relation "measure (\<lambda>(sz, seq, x). x + 1 - sz)") auto

declare luby_up.simps [simp del]

function luby_down :: "nat \<Rightarrow> int \<Rightarrow> nat \<Rightarrow> int option" where
  "luby_down sz seq x =
     (if int sz - 1 \<noteq> int x
      then (let sz' = nat ((int sz - 1) div 2)
            in if sz' = 0 then None else luby_down sz' (seq - 1) (x mod sz'))
      else Some seq)"
  by pat_completeness auto
termination
  by (relation "measure (\<lambda>(sz, seq, x). sz)") auto

declare luby_down.simps [simp del]

definition luby :: "real \<Rightarrow> nat \<Rightarrow> real option" where
  "luby y x =
     (if 2 ^ 31 - 1 \<le> int x then None
      else (case luby_up 1 0 x of
              (sz, seq) \<Rightarrow>
                (case luby_down sz seq x of None \<Rightarrow> None | Some seq' \<Rightarrow> dbl_pow y seq')))"

text \<open>
  The Luby sequence as the source's comment describes it, by its finite subsequences
  (\<open>0: 1\<close>, \<open>1: 1 1 2\<close>, \<open>2: 1 1 2 1 1 2 4\<close>, ...): block \<open>n + 1\<close> is block \<open>n\<close> twice,
  followed by \<open>2 ^ (n + 1)\<close>. Every block is a prefix of the next one, and block \<open>k\<close> has
  more than \<open>k\<close> entries, so index \<open>k\<close> of the sequence is entry \<open>k\<close> of block \<open>k\<close>.
\<close>

fun luby_block :: "nat \<Rightarrow> nat list" where
  "luby_block 0 = [1]"
| "luby_block (Suc n) = luby_block n @ luby_block n @ [2 ^ Suc n]"

definition luby_sequence :: "nat \<Rightarrow> nat" where
  "luby_sequence k = luby_block k ! k"


section \<open>Literals, clauses and the solver state\<close>

text \<open>
  The types of \<^verbatim>\<open>SolverTypes.h\<close> and the members of \<^verbatim>\<open>class Solver\<close> are not among the
  checked sources; they are taken from the way \<^verbatim>\<open>Solver.cc\<close> uses them and from the
  data model of the specification.

  Modelled from the spec: a literal is a variable with a sign, encoded as
  \<open>2 * var + sign\<close> (\<open>toInt\<close>), negation toggles the sign; \<open>lit_Undef\<close> and
  \<open>CRef_Undef\<close> are \<open>None\<close> of an option type. A clause carries its literals, the
  \<open>learnt\<close> flag, the \<open>mark\<close> and an activity. The arena \<open>ca\<close> is the list of all
  clauses ever allocated and a clause reference is an index into it (allocation appends,
  freeing only marks); compaction of the arena, which renames references consistently,
  is not modelled (\<open>checkGarbage\<close> is the identity). Vectors indexed by variables or
  literals are total functions. Doubles are reals, and the arithmetic on activities and
  on the limits of the learnt clause database is exact. Statistics that no control flow
  reads (\<open>propagations\<close>, \<open>decisions\<close>, \<open>max_literals\<close>, ...) and printing are left out.
\<close>

type_synonym var = nat

datatype lit = Lit (var: var) (sign: bool)

definition mkLit :: "var \<Rightarrow> bool \<Rightarrow> lit" where
  "mkLit v s = Lit v s"

definition lit_neg :: "lit \<Rightarrow> lit" where
  "lit_neg p = Lit (var p) (\<not> sign p)"

definition toInt :: "lit \<Rightarrow> nat" where
  "toInt p = 2 * var p + (if sign p then 1 else 0)"

datatype lbool = l_True | l_False | l_Undef

definition lbool_of :: "bool \<Rightarrow> lbool" where
  "lbool_of b = (if b then l_True else l_False)"

fun lbool_xor :: "lbool \<Rightarrow> bool \<Rightarrow> lbool" where
  "lbool_xor l_Undef b = l_Undef"
| "lbool_xor l_True b = (if b then l_False else l_True)"
| "lbool_xor l_False b = (if b then l_True else l_False)"

type_synonym cref = nat

record clause =
  lits :: "lit list"
  learnt :: bool
  mark :: nat
  cl_activity :: real

datatype watcher = Watcher (cref: cref) (blocker: lit)

record solver =
  ok :: bool
  assigns :: "var \<Rightarrow> lbool"
  vardata :: "var \<Rightarrow> cref option \<times> int"
  trail :: "lit list"
  trail_lim :: "nat list"
  qhead :: nat
  ca :: "clause list"
  clauses :: "cref list"
  learnts :: "cref list"
  watches :: "lit \<Rightarrow> watcher list"
  dirty :: "lit \<Rightarrow> bool"
  seen :: "var \<Rightarrow> nat"
  analyze_toclear :: "lit list"
  activity :: "var \<Rightarrow> real"
  var_inc :: real
  cla_inc :: real
  var_decay :: real
  clause_decay :: real
  polarity :: "var \<Rightarrow> bool"
  user_pol :: "var \<Rightarrow> lbool"
  decision :: "var \<Rightarrow> bool"
  order_heap :: "var list"
  cflr :: "cref option"
  model :: "lbool list"
  conflict :: "lit list"
  assumptions :: "lit list"
  next_var :: nat
  released_vars :: "var list"
  free_vars :: "var list"
  ccmin_mode :: int
  phase_saving :: int
  luby_restart :: bool
  restart_first :: int
  restart_inc :: real
  learntsize_factor :: real
  learntsize_inc :: real
  learntsize_adjust_start_confl :: int
  learntsize_adjust_inc :: real
  min_learnts_lim :: int
  remove_satisfied :: bool
  max_learnts :: real
  learntsize_adjust_confl :: real
  learntsize_adjust_cnt :: int
  simpDB_assigns :: int
  simpDB_props :: int
  solves :: nat
  starts :: nat
  conflicts :: nat
  num_clauses :: int
  num_learnts :: int
  clauses_literals :: int
  learnts_literals :: int
  num_sol :: int
  solution_store :: "lit list list"

definition decisionLevel :: "solver \<Rightarrow> int" where
  "decisionLevel s = int (length (trail_lim s))"


section \<open>Inline helpers of the solver\<close>

text \<open>
  Modelled from the spec: the inline members of \<^verbatim>\<open>Solver.h\<close> used below
  (\<open>decisionLevel = trail_lim.size()\<close>, \<open>level\<close>, \<open>reason\<close>, \<open>value\<close>, \<open>locked\<close>: the clause is
  the reason of its first literal and that literal is true; activity bumping with
  rescaling on overflow; the order heap as a list of candidate variables; lazy detaching
  by smudging a watch list, which \<open>lookup\<close> cleans of the watchers of removed clauses).
  A failed \<^verbatim>\<open>assert\<close> and a read that the source does not guard (an index outside an
  array, \<open>ca[CRef_Undef]\<close>) are the result \<open>None\<close>.
\<close>

definition level :: "solver \<Rightarrow> var \<Rightarrow> int" where
  "level s x = snd (vardata s x)"

definition reason :: "solver \<Rightarrow> var \<Rightarrow> cref option" where
  "reason s x = fst (vardata s x)"

definition value_var :: "solver \<Rightarrow> var \<Rightarrow> lbool" where
  "value_var s x = assigns s x"

definition value_lit :: "solver \<Rightarrow> lit \<Rightarrow> lbool" where
  "value_lit s p = lbool_xor (assigns s (var p)) (sign p)"

definition nAssigns :: "solver \<Rightarrow> int" where
  "nAssigns s = int (length (trail s))"

definition nVars :: "solver \<Rightarrow> int" where
  "nVars s = int (next_var s)"

definition nClauses :: "solver \<Rightarrow> int" where
  "nClauses s = num_clauses s"

definition newDecisionLevel :: "solver \<Rightarrow> solver" where
  "newDecisionLevel s = s\<lparr>trail_lim := trail_lim s @ [length (trail s)]\<rparr>"

definition insertVarOrder :: "var \<Rightarrow> solver \<Rightarrow> solver" where
  "insertVarOrder x s =
     (if x \<notin> set (order_heap s) \<and> decision s x then s\<lparr>order_heap := order_heap s @ [x]\<rparr> else s)"

definition locked :: "solver \<Rightarrow> cref \<Rightarrow> bool" where
  "locked s cr = (let c = lits (ca s ! cr)
                  in value_lit s (c ! 0) = l_True \<and> reason s (var (c ! 0)) = Some cr)"

definition ca_alloc :: "solver \<Rightarrow> lit list \<Rightarrow> bool \<Rightarrow> cref \<times> solver" where
  "ca_alloc s ps lrnt =
     (length (ca s),
      s\<lparr>ca := ca s @ [\<lparr>lits = ps, learnt = lrnt, mark = 0, cl_activity = 0\<rparr>]\<rparr>)"

definition lookup :: "solver \<Rightarrow> lit \<Rightarrow> solver" where
  "lookup s p =
     (if dirty s p
      then s\<lparr>watches := (watches s)(p := filter (\<lambda>w. mark (ca s ! cref w) \<noteq> 1) (watches s p)),
             dirty := (dirty s)(p := False)\<rparr>
      else s)"

definition smudge :: "lit \<Rightarrow> solver \<Rightarrow> solver" where
  "smudge p s = s\<lparr>dirty := (dirty s)(p := True)\<rparr>"

definition varBumpActivity :: "var \<Rightarrow> solver \<Rightarrow> solver" where
  "varBumpActivity v s =
     (let a = activity s v + var_inc s;
          s1 = s\<lparr>activity := (activity s)(v := a)\<rparr>
      in if a > 10 ^ 100
         then s1\<lparr>activity := (\<lambda>i. if i < next_var s1 then activity s1 i * (1 / 10 ^ 100) else activity s1 i),
                 var_inc := var_inc s1 * (1 / 10 ^ 100)\<rparr>
         else s1)"

definition claBumpActivity :: "cref \<Rightarrow> solver \<Rightarrow> solver" where
  "claBumpActivity cr s =
     (let c = ca s ! cr;
          a = cl_activity c + cla_inc s;
          s1 = s\<lparr>ca := (ca s)[cr := c\<lparr>cl_activity := a\<rparr>]\<rparr>
      in if a > 10 ^ 20
         then s1\<lparr>ca := fold (\<lambda>r cs. cs[r := (cs ! r)\<lparr>cl_activity := cl_activity (cs ! r) * (1 / 10 ^ 20)\<rparr>])
                          (learnts s1) (ca s1),
                 cla_inc := cla_inc s1 * (1 / 10 ^ 20)\<rparr>
         else s1)"

definition varDecayActivity :: "solver \<Rightarrow> solver" where
  "varDecayActivity s = s\<lparr>var_inc := var_inc s * (1 / var_decay s)\<rparr>"

definition claDecayActivity :: "solver \<Rightarrow> solver" where
  "claDecayActivity s = s\<lparr>cla_inc := cla_inc s * (1 / clause_decay s)\<rparr>"


section \<open>Minor methods of Solver.cc\<close>

text \<open>
  \<^verbatim>\<open>uncheckedEnqueue\<close>, \<^verbatim>\<open>attachClause\<close>, \<^verbatim>\<open>detachClause\<close> (lazy), \<^verbatim>\<open>removeClause\<close>,
  \<^verbatim>\<open>satisfied\<close> and \<^verbatim>\<open>cancelUntil\<close>, whose loop runs from the top of the trail down to
  \<open>trail_lim[level]\<close> (\<open>cancel_at\<close> is its body).
\<close>

definition uncheckedEnqueue :: "solver \<Rightarrow> lit \<Rightarrow> cref option \<Rightarrow> solver option" where
  "uncheckedEnqueue s p from =
     (if value_lit s p \<noteq> l_Undef then None
      else Some (s\<lparr>assigns := (assigns s)(var p := lbool_of (\<not> sign p)),
                   vardata := (vardata s)(var p := (from, decisionLevel s)),
                   trail := trail s @ [p]\<rparr>))"

definition attachClause :: "solver \<Rightarrow> cref \<Rightarrow> solver option" where
  "attachClause s cr =
     (if \<not> cr < length (ca s) then None
      else let c = ca s ! cr; ls = lits c
      in if \<not> length ls > 1 then None
         else let w0 = lit_neg (ls ! 0); w1 = lit_neg (ls ! 1);
                  s1 = s\<lparr>watches := (watches s)(w0 := watches s w0 @ [Watcher cr (ls ! 1)])\<rparr>;
                  s2 = s1\<lparr>watches := (watches s1)(w1 := watches s1 w1 @ [Watcher cr (ls ! 0)])\<rparr>
              in Some (if learnt c
                       then s2\<lparr>num_learnts := num_learnts s2 + 1,
                               learnts_literals := learnts_literals s2 + int (length ls)\<rparr>
                       else s2\<lparr>num_clauses := num_clauses s2 + 1,
                               clauses_literals := clauses_literals s2 + int (length ls)\<rparr>))"

definition detachClause :: "solver \<Rightarrow> cref \<Rightarrow> solver option" where
  "detachClause s cr =
     (if \<not> cr < length (ca s) then None
      else let c = ca s ! cr; ls = lits c
      in if \<not> length ls > 1 then None
         else let s2 = smudge (lit_neg (ls ! 1)) (smudge (lit_neg (ls ! 0)) s)
              in Some (if learnt c
                       then s2\<lparr>num_learnts := num_learnts s2 - 1,
                               learnts_literals := learnts_literals s2 - int (length ls)\<rparr>
                       else s2\<lparr>num_clauses := num_clauses s2 - 1,
                               clauses_literals := clauses_literals s2 - int (length ls)\<rparr>))"

definition removeClause :: "solver \<Rightarrow> cref \<Rightarrow> solver option" where
  "removeClause s cr =
     (case detachClause s cr of
        None \<Rightarrow> None
      | Some s1 \<Rightarrow>
          let x = var (lits (ca s1 ! cr) ! 0);
              s2 = (if locked s1 cr then s1\<lparr>vardata := (vardata s1)(x := (None, level s1 x))\<rparr> else s1)
          in Some (s2\<lparr>ca := (ca s2)[cr := (ca s2 ! cr)\<lparr>mark := 1\<rparr>]\<rparr>))"

definition satisfied :: "solver \<Rightarrow> clause \<Rightarrow> bool" where
  "satisfied s c = list_ex (\<lambda>p. value_lit s p = l_True) (lits c)"

definition cancel_at :: "nat \<Rightarrow> solver \<Rightarrow> solver" where
  "cancel_at c s =
     (let x = var (trail s ! c);
          s1 = s\<lparr>assigns := (assigns s)(x := l_Undef)\<rparr>;
          s2 = (if phase_saving s1 > 1 \<or> (phase_saving s1 = 1 \<and> c > last (trail_lim s1))
                then s1\<lparr>polarity := (polarity s1)(x := sign (trail s1 ! c))\<rparr> else s1)
      in insertVarOrder x s2)"

definition cancelUntil :: "solver \<Rightarrow> int \<Rightarrow> solver option" where
  "cancelUntil s lev =
     (if decisionLevel s > lev
      then (if lev < 0 then None
            else let lim = trail_lim s ! nat lev;
                     s1 = fold cancel_at (rev [lim ..< length (trail s)]) (s\<lparr>cflr := None\<rparr>)
                 in Some (s1\<lparr>qhead := lim, trail := take lim (trail s1),
                             trail_lim := take (nat lev) (trail_lim s1)\<rparr>))
      else Some s)"


section \<open>Unit propagation\<close>

text \<open>
  \<^verbatim>\<open>Solver::propagate\<close>. \<open>propagate_watchers p ws js s\<close> is the inner loop over the watch
  list of \<open>p\<close>: \<open>ws\<close> are the watchers from pointer \<open>i\<close> to \<open>end\<close>, \<open>js\<close> the watchers
  already copied below pointer \<open>j\<close>. \<open>propagate_watcher\<close> is its body for one watcher: the
  watcher is kept (\<^verbatim>\<open>*j++ = w\<close>, possibly after an enqueue), moved to another watch list,
  or its clause is conflicting (the remaining watchers are then copied and \<open>qhead\<close> jumps
  to the end of the trail). Pushing a watcher onto the list that is being traversed
  would invalidate the pointers and is \<open>Undefined\<close>, as are a failed assertion and a
  read outside the arena. The outer \<^verbatim>\<open>while\<close> loop is
  \<open>propagate_loop\<close>; it may run forever on an ill-formed state, so it is a partial
  function.
\<close>

fun find_nonfalse :: "solver \<Rightarrow> lit list \<Rightarrow> nat \<Rightarrow> nat option" where
  "find_nonfalse s [] k = None"
| "find_nonfalse s (q # qs) k =
     (if value_lit s q \<noteq> l_False then Some k else find_nonfalse s qs (Suc k))"

definition set_lits :: "solver \<Rightarrow> cref \<Rightarrow> lit list \<Rightarrow> solver" where
  "set_lits s cr ls = s\<lparr>ca := (ca s)[cr := (ca s ! cr)\<lparr>lits := ls\<rparr>]\<rparr>"

datatype watch_result = Keep watcher solver | Moved solver | Conflicting watcher solver | Undefined

definition propagate_watcher :: "lit \<Rightarrow> watcher \<Rightarrow> solver \<Rightarrow> watch_result" where
  "propagate_watcher p w s =
     (if value_lit s (blocker w) = l_True then Keep w s
      else let cr = cref w in
        if \<not> cr < length (ca s) \<or> length (lits (ca s ! cr)) < 2 then Undefined
        else let c = lits (ca s ! cr);
                 false_lit = lit_neg p;
                 c1 = (if c ! 0 = false_lit then c[0 := c ! 1, 1 := false_lit] else c)
             in if c1 ! 1 \<noteq> false_lit then Undefined
                else let s1 = set_lits s cr c1;
                         first = c1 ! 0;
                         w' = Watcher cr first
                     in if first \<noteq> blocker w \<and> value_lit s1 first = l_True then Keep w' s1
                        else (case find_nonfalse s1 (drop 2 c1) 2 of
                                Some k \<Rightarrow>
                                  let c2 = c1[1 := c1 ! k, k := false_lit];
                                      nl = lit_neg (c2 ! 1);
                                      s2 = set_lits s1 cr c2
                                  in if nl = p then Undefined
                                     else Moved (s2\<lparr>watches := (watches s2)(nl := watches s2 nl @ [w'])\<rparr>)
                              | None \<Rightarrow>
                                  if value_lit s1 first = l_False
                                  then Conflicting w' (s1\<lparr>qhead := length (trail s1)\<rparr>)
                                  else (case uncheckedEnqueue s1 first (Some cr) of
                                          None \<Rightarrow> Undefined
                                        | Some s2 \<Rightarrow> Keep w' s2)))"

fun propagate_watchers ::
  "lit \<Rightarrow> watcher list \<Rightarrow> watcher list \<Rightarrow> solver \<Rightarrow> (solver \<times> watcher list \<times> cref option) option" where
  "propagate_watchers p [] js s = Some (s, js, None)"
| "propagate_watchers p (w # ws) js s =
     (case propagate_watcher p w s of
        Undefined \<Rightarrow> None
      | Keep w' s' \<Rightarrow> propagate_watchers p ws (js @ [w']) s'
      | Moved s' \<Rightarrow> propagate_watchers p ws js s'
      | Conflicting w' s' \<Rightarrow> Some (s', js @ [w'] @ ws, Some (cref w')))"

partial_function (option) propagate_loop ::
  "solver \<Rightarrow> cref option \<Rightarrow> int \<Rightarrow> (solver \<times> cref option \<times> int) option" where
  "propagate_loop s confl num_props =
     (if qhead s < length (trail s)
      then let p = trail s ! qhead s;
               s1 = lookup (s\<lparr>qhead := qhead s + 1\<rparr>) p
           in (case propagate_watchers p (watches s1 p) [] s1 of
                 None \<Rightarrow> None
               | Some (s2, js, confl') \<Rightarrow>
                   propagate_loop (s2\<lparr>watches := (watches s2)(p := js)\<rparr>)
                     (case confl' of None \<Rightarrow> confl | Some cr \<Rightarrow> Some cr) (num_props + 1))
      else Some (s, confl, num_props))"

declare propagate_loop.simps [code]

definition propagate :: "solver \<Rightarrow> (cref option \<times> solver) option" where
  "propagate s =
     (case propagate_loop s None 0 of
        None \<Rightarrow> None
      | Some (s1, confl, num_props) \<Rightarrow>
          Some (confl, s1\<lparr>simpDB_props := simpDB_props s1 - num_props\<rparr>))"

section \<open>Conflict analysis\<close>

text \<open>
  \<^verbatim>\<open>Solver::analyze\<close>, \<^verbatim>\<open>Solver::litRedundant\<close> and \<^verbatim>\<open>Solver::analyzeFinal\<close>.
  \<open>analyze_loop\<close> is the \<^verbatim>\<open>do ... while (pathC > 0)\<close> loop; its argument \<open>idx\<close> is
  \<open>index + 1\<close>, and \<open>find_seen\<close> is the scan \<^verbatim>\<open>while (!seen[var(trail[index--])]);\<close>, which
  leaves the trail when no marked variable is left (\<open>None\<close>). \<open>litRedundant_loop\<close> is the
  loop of \<^verbatim>\<open>litRedundant\<close> with its explicit stack; the marks are \<open>seen_undef = 0\<close>,
  \<open>seen_source = 1\<close>, \<open>seen_removable = 2\<close>, \<open>seen_failed = 3\<close>. \<open>find_btlevel\<close> is the last
  part of \<^verbatim>\<open>analyze\<close> (``Find correct backtrack level'').
\<close>

fun fold_option :: "('a \<Rightarrow> 'b \<Rightarrow> 'b option) \<Rightarrow> 'a list \<Rightarrow> 'b \<Rightarrow> 'b option" where
  "fold_option f [] s = Some s"
| "fold_option f (x # xs) s = (case f x s of None \<Rightarrow> None | Some s' \<Rightarrow> fold_option f xs s')"

definition analyze_lit :: "lit \<Rightarrow> solver \<times> int \<times> lit list \<Rightarrow> solver \<times> int \<times> lit list" where
  "analyze_lit q st =
     (case st of (s, pathC, out_learnt) \<Rightarrow>
        if seen s (var q) = 0 \<and> level s (var q) > 0
        then let s1 = varBumpActivity (var q) s;
                 s2 = s1\<lparr>seen := (seen s1)(var q := 1)\<rparr>
             in if level s2 (var q) \<ge> decisionLevel s2 then (s2, pathC + 1, out_learnt)
                else (s2, pathC, out_learnt @ [q])
        else (s, pathC, out_learnt))"

fun find_seen :: "solver \<Rightarrow> nat \<Rightarrow> nat option" where
  "find_seen s 0 = None"
| "find_seen s (Suc i) = (if seen s (var (trail s ! i)) \<noteq> 0 then Some i else find_seen s i)"

definition analyze_clause ::
  "solver \<Rightarrow> cref \<Rightarrow> lit option \<Rightarrow> int \<Rightarrow> lit list \<Rightarrow> solver \<times> int \<times> lit list" where
  "analyze_clause s cr p pathC out_learnt =
     (let s1 = (if learnt (ca s ! cr) then claBumpActivity cr s else s);
          c = lits (ca s1 ! cr)
      in fold analyze_lit (drop (if p = None then 0 else 1) c) (s1, pathC, out_learnt))"

function analyze_loop ::
  "solver \<Rightarrow> cref option \<Rightarrow> lit option \<Rightarrow> int \<Rightarrow> lit list \<Rightarrow> nat \<Rightarrow> (solver \<times> lit \<times> lit list) option" where
  "analyze_loop s confl p pathC out_learnt idx =
     (case confl of
        None \<Rightarrow> None
      | Some cr \<Rightarrow>
          if \<not> cr < length (ca s) \<or> length (trail s) < idx then None
          else (case analyze_clause s cr p pathC out_learnt of
                  (s2, pathC2, out2) \<Rightarrow>
                    (case find_seen s2 idx of
                       None \<Rightarrow> None
                     | Some i \<Rightarrow>
                         let p' = trail s2 ! i;
                             s3 = s2\<lparr>seen := (seen s2)(var p' := 0)\<rparr>
                         in if pathC2 - 1 > 0
                            then analyze_loop s3 (reason s2 (var p')) (Some p') (pathC2 - 1) out2 i
                            else Some (s3, p', out2))))"
  by pat_completeness auto
termination
proof (relation "measure (\<lambda>(s, confl, p, pathC, out_learnt, idx). idx)")
  show "wf (measure (\<lambda>(s, confl, p, pathC, out_learnt, idx). idx))" by simp
next
  fix s2 :: solver and idx i :: nat and s3 confl' p' pathC3 out2
  assume "find_seen s2 idx = Some i"
  then have "i < idx" by (induction idx) (auto split: if_splits)
  then show "((s3, confl', Some p', pathC3, out2, i), (s, confl, p, pathC, out_learnt, idx))
    \<in> measure (\<lambda>(s, confl, p, pathC, out_learnt, idx). idx)" for s confl p pathC out_learnt
    by simp
qed

declare analyze_loop.simps [simp del]

definition mark_failed :: "nat \<times> lit \<Rightarrow> solver \<Rightarrow> solver" where
  "mark_failed e s =
     (let l = snd e
      in if seen s (var l) = 0
         then s\<lparr>seen := (seen s)(var l := 3), analyze_toclear := analyze_toclear s @ [l]\<rparr>
         else s)"

partial_function (option) litRedundant_loop ::
  "solver \<Rightarrow> lit \<Rightarrow> nat \<Rightarrow> lit list \<Rightarrow> (nat \<times> lit) list \<Rightarrow> (bool \<times> solver) option" where
  "litRedundant_loop s p i c stack =
     (if i < length c
      then let l = c ! i
           in if level s (var l) = 0 \<or> seen s (var l) = 1 \<or> seen s (var l) = 2
              then litRedundant_loop s p (i + 1) c stack
              else if reason s (var l) = None \<or> seen s (var l) = 3
              then Some (False, fold mark_failed (stack @ [(0, p)]) s)
              else (case reason s (var l) of
                      None \<Rightarrow> None
                    | Some r \<Rightarrow>
                        if r < length (ca s)
                        then litRedundant_loop s l 1 (lits (ca s ! r)) (stack @ [(i, p)])
                        else None)
      else let s1 = (if seen s (var p) = 0
                     then s\<lparr>seen := (seen s)(var p := 2), analyze_toclear := analyze_toclear s @ [p]\<rparr>
                     else s)
           in if stack = [] then Some (True, s1)
              else (case reason s1 (var (snd (last stack))) of
                      None \<Rightarrow> None
                    | Some r \<Rightarrow>
                        if r < length (ca s1)
                        then litRedundant_loop s1 (snd (last stack)) (fst (last stack) + 1)
                               (lits (ca s1 ! r)) (butlast stack)
                        else None))"

declare litRedundant_loop.simps [code]

definition litRedundant :: "solver \<Rightarrow> lit \<Rightarrow> (bool \<times> solver) option" where
  "litRedundant s p =
     (if \<not> (seen s (var p) = 0 \<or> seen s (var p) = 1) then None
      else (case reason s (var p) of
              None \<Rightarrow> None
            | Some r \<Rightarrow> if r < length (ca s) then litRedundant_loop s p 1 (lits (ca s ! r)) [] else None))"

fun minimize_deep :: "solver \<Rightarrow> lit list \<Rightarrow> lit list \<Rightarrow> (solver \<times> lit list) option" where
  "minimize_deep s [] kept = Some (s, kept)"
| "minimize_deep s (l # ls) kept =
     (if reason s (var l) = None then minimize_deep s ls (kept @ [l])
      else (case litRedundant s l of
              None \<Rightarrow> None
            | Some (red, s1) \<Rightarrow> minimize_deep s1 ls (if red then kept else kept @ [l])))"

definition minimize_basic :: "solver \<Rightarrow> lit list \<Rightarrow> lit list" where
  "minimize_basic s ls =
     filter (\<lambda>l. case reason s (var l) of
                   None \<Rightarrow> True
                 | Some r \<Rightarrow> list_ex (\<lambda>q. seen s (var q) = 0 \<and> level s (var q) > 0)
                              (drop 1 (lits (ca s ! r)))) ls"

definition find_btlevel :: "solver \<Rightarrow> lit list \<Rightarrow> lit list \<times> int" where
  "find_btlevel s out_learnt =
     (if length out_learnt = 1 then (out_learnt, 0)
      else let max_i = fold (\<lambda>i m. if level s (var (out_learnt ! i)) > level s (var (out_learnt ! m))
                                   then i else m) [2 ..< length out_learnt] 1;
               p = out_learnt ! max_i
           in ((out_learnt[max_i := out_learnt ! 1])[1 := p], level s (var p)))"

definition analyze :: "solver \<Rightarrow> cref \<Rightarrow> (solver \<times> lit list \<times> int) option" where
  "analyze s confl =
     (case analyze_loop s (Some confl) None 0 [] (length (trail s)) of
        None \<Rightarrow> None
      | Some (s1, p, out) \<Rightarrow>
          let out_learnt = lit_neg p # out;
              s2 = s1\<lparr>analyze_toclear := out_learnt\<rparr>
          in (case (if ccmin_mode s2 = 2
                    then map_option (\<lambda>(s', r). (s', lit_neg p # r)) (minimize_deep s2 out [])
                    else if ccmin_mode s2 = 1 then Some (s2, lit_neg p # minimize_basic s2 out)
                    else Some (s2, out_learnt)) of
                None \<Rightarrow> None
              | Some (s3, shrunk) \<Rightarrow>
                  let bt = find_btlevel s3 shrunk;
                      s4 = s3\<lparr>seen := fold (\<lambda>l sn. sn(var l := 0)) (analyze_toclear s3) (seen s3)\<rparr>
                  in Some (s4, fst bt, snd bt)))"

definition conflict_insert :: "lit \<Rightarrow> lit list \<Rightarrow> lit list" where
  "conflict_insert p ps = (if p \<in> set ps then ps else ps @ [p])"

definition analyzeFinal_at :: "nat \<Rightarrow> solver \<Rightarrow> solver option" where
  "analyzeFinal_at i s =
     (let x = var (trail s ! i)
      in if seen s x \<noteq> 0
         then (case reason s x of
                 None \<Rightarrow>
                   if \<not> level s x > 0 then None
                   else Some (s\<lparr>conflict := conflict_insert (lit_neg (trail s ! i)) (conflict s),
                                seen := (seen s)(x := 0)\<rparr>)
               | Some r \<Rightarrow>
                   Some (s\<lparr>seen := (fold (\<lambda>q sn. if level s (var q) > 0 then sn(var q := 1) else sn)
                                      (drop 1 (lits (ca s ! r))) (seen s))(x := 0)\<rparr>))
         else Some s)"

definition analyzeFinal :: "solver \<Rightarrow> lit \<Rightarrow> solver option" where
  "analyzeFinal s p =
     (let s0 = s\<lparr>conflict := [p]\<rparr>
      in if decisionLevel s0 = 0 then Some s0
         else (case fold_option analyzeFinal_at
                      (rev [trail_lim s0 ! 0 ..< length (trail s0)])
                      (s0\<lparr>seen := (seen s0)(var p := 1)\<rparr>) of
                 None \<Rightarrow> None
               | Some s1 \<Rightarrow> Some (s1\<lparr>seen := (seen s1)(var p := 0)\<rparr>)))"

section \<open>Clause database: adding, simplifying, reducing\<close>

text \<open>
  Modelled from the spec: the sorting routines (\<^verbatim>\<open>sort\<close> of \<^verbatim>\<open>mtl/Sort.h\<close> and
  \<^verbatim>\<open>std::sort\<close>) are an insertion sort by the given ``less than'' predicate, \<open>sort_by\<close>.

  \<^verbatim>\<open>Solver::addClause_\<close> (\<open>addClause_scan\<close> is its loop over the sorted literals; \<open>None\<close>
  there is the early \<^verbatim>\<open>return true\<close> for a satisfied or tautological clause),
  \<^verbatim>\<open>removeSatisfied\<close>, \<^verbatim>\<open>rebuildOrderHeap\<close>, \<^verbatim>\<open>simplify\<close> and \<^verbatim>\<open>reduceDB\<close> with its
  order \<^verbatim>\<open>reduceDB_lt\<close>.
\<close>

fun insort_by :: "('a \<Rightarrow> 'a \<Rightarrow> bool) \<Rightarrow> 'a \<Rightarrow> 'a list \<Rightarrow> 'a list" where
  "insort_by lt x [] = [x]"
| "insort_by lt x (y # ys) = (if lt y x then y # insort_by lt x ys else x # y # ys)"

definition sort_by :: "('a \<Rightarrow> 'a \<Rightarrow> bool) \<Rightarrow> 'a list \<Rightarrow> 'a list" where
  "sort_by lt xs = foldr (insort_by lt) xs []"

fun addClause_scan :: "solver \<Rightarrow> lit list \<Rightarrow> lit option \<Rightarrow> lit list \<Rightarrow> lit list option" where
  "addClause_scan s [] p kept = Some kept"
| "addClause_scan s (q # qs) p kept =
     (if value_lit s q = l_True \<or> Some q = map_option lit_neg p then None
      else if value_lit s q \<noteq> l_False \<and> Some q \<noteq> p then addClause_scan s qs (Some q) (kept @ [q])
      else addClause_scan s qs p kept)"

definition addClause_impl :: "solver \<Rightarrow> lit list \<Rightarrow> (bool \<times> solver) option" where
  "addClause_impl s ps =
     (if decisionLevel s \<noteq> 0 then None
      else if \<not> ok s then Some (False, s)
      else (case addClause_scan s (sort_by (\<lambda>a b. toInt a < toInt b) ps) None [] of
              None \<Rightarrow> Some (True, s)
            | Some ps' \<Rightarrow>
                if length ps' = 0 then Some (False, s\<lparr>ok := False\<rparr>)
                else if length ps' = 1
                then (case uncheckedEnqueue s (ps' ! 0) None of
                        None \<Rightarrow> None
                      | Some s1 \<Rightarrow>
                          (case propagate s1 of
                             None \<Rightarrow> None
                           | Some (confl, s2) \<Rightarrow> Some (confl = None, s2\<lparr>ok := (confl = None)\<rparr>)))
                else (case ca_alloc s ps' False of
                        (cr, s1) \<Rightarrow>
                          (case attachClause (s1\<lparr>clauses := clauses s1 @ [cr]\<rparr>) cr of
                             None \<Rightarrow> None
                           | Some s2 \<Rightarrow> Some (True, s2)))))"

function trim_clause :: "solver \<Rightarrow> lit list \<Rightarrow> nat \<Rightarrow> lit list" where
  "trim_clause s c k =
     (if k < length c
      then (if value_lit s (c ! k) = l_False then trim_clause s (butlast (c[k := last c])) k
            else trim_clause s c (k + 1))
      else c)"
  by pat_completeness auto
termination
  by (relation "measure (\<lambda>(s, c, k). length c - k)") auto

declare trim_clause.simps [simp del]

definition removeSatisfied_at :: "cref \<Rightarrow> solver \<times> cref list \<Rightarrow> (solver \<times> cref list) option" where
  "removeSatisfied_at cr st =
     (case st of (s, kept) \<Rightarrow>
        if \<not> cr < length (ca s) then None
        else let c = ca s ! cr
             in if satisfied s c then map_option (\<lambda>s'. (s', kept)) (removeClause s cr)
                else if \<not> (length (lits c) \<ge> 2 \<and> value_lit s (lits c ! 0) = l_Undef
                             \<and> value_lit s (lits c ! 1) = l_Undef) then None
                else Some (set_lits s cr (trim_clause s (lits c) 2), kept @ [cr]))"

definition removeSatisfied :: "solver \<Rightarrow> cref list \<Rightarrow> (solver \<times> cref list) option" where
  "removeSatisfied s cs = fold_option removeSatisfied_at cs (s, [])"

definition rebuildOrderHeap :: "solver \<Rightarrow> solver" where
  "rebuildOrderHeap s =
     s\<lparr>order_heap := filter (\<lambda>v. decision s v \<and> value_var s v = l_Undef) [0 ..< next_var s]\<rparr>"

definition checkGarbage :: "solver \<Rightarrow> solver" where
  "checkGarbage s = s"

definition simplify :: "solver \<Rightarrow> (bool \<times> solver) option" where
  "simplify s =
     (if decisionLevel s \<noteq> 0 then None
      else if \<not> ok s then Some (False, s\<lparr>ok := False\<rparr>)
      else (case propagate s of
              None \<Rightarrow> None
            | Some (confl, s1) \<Rightarrow>
                if confl \<noteq> None then Some (False, s1\<lparr>ok := False\<rparr>)
                else if nAssigns s1 = simpDB_assigns s1 \<or> simpDB_props s1 > 0 then Some (True, s1)
                else (case removeSatisfied s1 (learnts s1) of
                        None \<Rightarrow> None
                      | Some (s2, ls) \<Rightarrow>
                          (case (if remove_satisfied s2
                                 then (case removeSatisfied (s2\<lparr>learnts := ls\<rparr>) (clauses s2) of
                                         None \<Rightarrow> None
                                       | Some (s3, cs) \<Rightarrow>
                                           if list_ex (\<lambda>x. seen s3 x \<noteq> 0) (released_vars s3) then None
                                           else let sn = fold (\<lambda>x f. f(x := 1)) (released_vars s3) (seen s3);
                                                    tr = filter (\<lambda>p. sn (var p) = 0) (trail s3)
                                                in Some (s3\<lparr>clauses := cs, trail := tr, qhead := length tr,
                                                            seen := fold (\<lambda>x f. f(x := 0)) (released_vars s3) sn,
                                                            free_vars := free_vars s3 @ released_vars s3,
                                                            released_vars := []\<rparr>))
                                 else Some (s2\<lparr>learnts := ls\<rparr>)) of
                             None \<Rightarrow> None
                           | Some s4 \<Rightarrow>
                               let s5 = rebuildOrderHeap (checkGarbage s4)
                               in Some (True, s5\<lparr>simpDB_assigns := nAssigns s5,
                                                  simpDB_props := clauses_literals s5 + learnts_literals s5\<rparr>)))))"

definition reduceDB_lt :: "solver \<Rightarrow> cref \<Rightarrow> cref \<Rightarrow> bool" where
  "reduceDB_lt s x y =
     (length (lits (ca s ! x)) > 2 \<and>
      (length (lits (ca s ! y)) = 2 \<or> cl_activity (ca s ! x) < cl_activity (ca s ! y)))"

definition reduceDB_at :: "real \<Rightarrow> cref list \<Rightarrow> nat \<Rightarrow> solver \<times> cref list \<Rightarrow> (solver \<times> cref list) option" where
  "reduceDB_at extra_lim ls i st =
     (case st of (s, kept) \<Rightarrow>
        let cr = ls ! i; c = ca s ! cr
        in if length (lits c) > 2 \<and> \<not> locked s cr \<and>
              (int i < int (length ls) div 2 \<or> cl_activity c < extra_lim)
           then map_option (\<lambda>s'. (s', kept)) (removeClause s cr)
           else Some (s, kept @ [cr]))"

definition reduceDB :: "solver \<Rightarrow> solver option" where
  "reduceDB s =
     (let extra_lim = cla_inc s / real (length (learnts s));
          ls = sort_by (reduceDB_lt s) (learnts s)
      in (case fold_option (reduceDB_at extra_lim ls) [0 ..< length ls] (s\<lparr>learnts := ls\<rparr>, []) of
            None \<Rightarrow> None
          | Some (s1, kept) \<Rightarrow> Some (checkGarbage (s1\<lparr>learnts := kept\<rparr>))))"

section \<open>Branching and clause ingestion during search\<close>

text \<open>
  What the solver cannot compute from its own state is an input of the model, the record
  \<open>env\<close>: the verdict of the symmetry checker, already translated to a clause by
  \<^verbatim>\<open>blockingClause\<close> (\<open>sym_check\<close>), the clauses thrown by the colouring checker
  (\<open>col_check\<close>, consulted when \<open>prop010\<close> is set), whether the assignment cutoff is due
  (\<open>cutoff_active\<close>: it compares the time spent), \<open>withinBudget\<close>, the random choices of
  \<^verbatim>\<open>pickBranchLit\<close>, the number of vertices, and \<open>lit_default\<close>, the literal that the sized
  constructor of \<^verbatim>\<open>vec<Lit>\<close> fills a new vector with.

  \<^verbatim>\<open>Solver::pickBranchLit\<close> (\<open>pick_loop\<close> is its \<^verbatim>\<open>while\<close> loop, \<open>heap_min\<close> the variable
  that \<^verbatim>\<open>removeMin\<close> takes: one of maximal activity) and
  \<^verbatim>\<open>Solver::addClauseDuringSearch\<close> with its comparator \<open>lit_order\<close>. \<open>learn\<close> is the
  code that installs a learnt clause and enqueues its first literal, which the source
  repeats in \<^verbatim>\<open>search\<close>, \<^verbatim>\<open>addClauseDuringSearch\<close> and \<^verbatim>\<open>learn_clause\<close>; \<open>add_original\<close>
  allocates and attaches the ingested clause, bumping its variables where the source does.
  The branches of \<^verbatim>\<open>addClauseDuringSearch\<close> are \<open>ingest_unit\<close>
  (\<^verbatim>\<open>cancelUntil(0); uncheckedEnqueue(clause[0])\<close>), \<open>ingest_asserting\<close> (backjump, attach,
  enqueue the first literal with the clause as reason; the source has it for one
  unassigned literal and for a single literal at the highest level) and
  \<open>ingest_conflicting\<close> (backjump, attach, analyse, backjump, learn). \<open>num_unassigned\<close>
  and \<open>num_highest_dl\<close> are the two counting loops.
\<close>

record env =
  sym_check :: "solver \<Rightarrow> bool \<Rightarrow> lit list option"
  prop010 :: bool
  col_check :: "solver \<Rightarrow> lit list list option"
  cutoff_active :: "solver \<Rightarrow> bool"
  vertices :: int
  assignmentCutoff :: int
  withinBudget :: "solver \<Rightarrow> bool"
  rnd_var :: "solver \<Rightarrow> var option"
  rnd_pol :: bool
  rnd_sign :: "solver \<Rightarrow> bool"
  lit_default :: lit

definition heap_min :: "solver \<Rightarrow> var" where
  "heap_min s = hd (filter (\<lambda>v. \<forall>w \<in> set (order_heap s). activity s w \<le> activity s v) (order_heap s))"

function pick_loop :: "solver \<Rightarrow> var option \<Rightarrow> var option \<times> solver" where
  "pick_loop s next =
     (if next = None \<or> value_var s (the next) \<noteq> l_Undef \<or> \<not> decision s (the next)
      then (if order_heap s = [] then (None, s)
            else let v = heap_min s
                 in pick_loop (s\<lparr>order_heap := remove1 v (order_heap s)\<rparr>) (Some v))
      else (next, s))"
  by pat_completeness auto
termination
proof (relation "measure (\<lambda>(s, next). length (order_heap s))")
  show "wf (measure (\<lambda>(s, next). length (order_heap s)))" by simp
next
  fix s :: solver and nx :: "var option" and v
  assume ne: "order_heap s \<noteq> []" and v: "v = heap_min s"
  obtain m where m: "m \<in> set (order_heap s)" "\<forall>w \<in> set (order_heap s). activity s w \<le> activity s m"
  proof -
    have "finite (activity s ` set (order_heap s))" "activity s ` set (order_heap s) \<noteq> {}"
      using ne by simp_all
    then have "Max (activity s ` set (order_heap s)) \<in> activity s ` set (order_heap s)"
      by (rule Max_in)
    then obtain m where "m \<in> set (order_heap s)" "activity s m = Max (activity s ` set (order_heap s))"
      by auto
    then show ?thesis using that by (metis Max_ge List.finite_set finite_imageI imageI)
  qed
  then have "filter (\<lambda>v. \<forall>w \<in> set (order_heap s). activity s w \<le> activity s v) (order_heap s) \<noteq> []"
    by (auto simp: filter_empty_conv)
  then have "heap_min s \<in> set (order_heap s)"
    unfolding heap_min_def by (metis (no_types, lifting) filter_is_subset hd_in_set subsetD)
  then have "length (remove1 v (order_heap s)) < length (order_heap s)"
    using v ne by (simp add: length_remove1)
  then show "((s\<lparr>order_heap := remove1 v (order_heap s)\<rparr>, Some v), (s, nx))
     \<in> measure (\<lambda>(s, next). length (order_heap s))" by simp
qed

declare pick_loop.simps [simp del]

definition pickBranchLit :: "env \<Rightarrow> solver \<Rightarrow> lit option \<times> solver" where
  "pickBranchLit e s =
     (case pick_loop s (rnd_var e s) of
        (None, s1) \<Rightarrow> (None, s1)
      | (Some next, s1) \<Rightarrow>
          if user_pol s1 next \<noteq> l_Undef then (Some (mkLit next (user_pol s1 next = l_True)), s1)
          else if rnd_pol e then (Some (mkLit next (rnd_sign e s1)), s1)
          else (Some (mkLit next (polarity s1 next)), s1))"

definition lit_order :: "solver \<Rightarrow> lit \<Rightarrow> lit \<Rightarrow> bool" where
  "lit_order s la lb =
     (if value_lit s la = l_Undef then True
      else if value_lit s lb = l_Undef then False
      else level s (var la) > level s (var lb))"

definition learn :: "solver \<Rightarrow> lit list \<Rightarrow> solver option" where
  "learn s learnt_clause =
     (if length learnt_clause = 1 then uncheckedEnqueue s (learnt_clause ! 0) None
      else (case ca_alloc s learnt_clause True of
              (cr, s1) \<Rightarrow>
                (case attachClause (s1\<lparr>learnts := learnts s1 @ [cr]\<rparr>) cr of
                   None \<Rightarrow> None
                 | Some s2 \<Rightarrow> uncheckedEnqueue (claBumpActivity cr s2) (learnt_clause ! 0) (Some cr))))"

definition add_original :: "solver \<Rightarrow> lit list \<Rightarrow> bool \<Rightarrow> (cref \<times> solver) option" where
  "add_original s clause bump =
     (case ca_alloc s clause False of
        (cr, s1) \<Rightarrow>
          let s2 = (if bump then fold (\<lambda>l. varBumpActivity (var l)) clause s1 else s1)
          in map_option (\<lambda>s3. (cr, s3)) (attachClause (s2\<lparr>clauses := clauses s2 @ [cr]\<rparr>) cr))"

definition num_unassigned :: "solver \<Rightarrow> lit list \<Rightarrow> nat" where
  "num_unassigned s clause = length (takeWhile (\<lambda>l. value_lit s l = l_Undef) clause)"

definition num_highest_dl :: "solver \<Rightarrow> lit list \<Rightarrow> nat \<Rightarrow> int \<Rightarrow> nat" where
  "num_highest_dl s clause nu highest_dl =
     1 + length (takeWhile (\<lambda>l. level s (var l) = highest_dl) (drop (nu + 1) clause))"

definition ingest_unit :: "solver \<Rightarrow> lit list \<Rightarrow> (bool \<times> solver) option" where
  "ingest_unit s clause =
     (case cancelUntil s 0 of
        None \<Rightarrow> None
      | Some s1 \<Rightarrow> map_option (\<lambda>s2. (True, s2)) (uncheckedEnqueue s1 (clause ! 0) None))"

definition ingest_asserting :: "solver \<Rightarrow> lit list \<Rightarrow> int \<Rightarrow> (bool \<times> solver) option" where
  "ingest_asserting s clause lev =
     (case cancelUntil s lev of
        None \<Rightarrow> None
      | Some s1 \<Rightarrow>
          (case add_original s1 clause True of
             None \<Rightarrow> None
           | Some (cr, s2) \<Rightarrow>
               map_option (\<lambda>s3. (True, s3)) (uncheckedEnqueue s2 (clause ! 0) (Some cr))))"

definition ingest_conflicting :: "solver \<Rightarrow> lit list \<Rightarrow> int \<Rightarrow> (bool \<times> solver) option" where
  "ingest_conflicting s clause highest_dl =
     (case cancelUntil s highest_dl of
        None \<Rightarrow> None
      | Some s1 \<Rightarrow>
          (case add_original s1 clause False of
             None \<Rightarrow> None
           | Some (cr, s2) \<Rightarrow>
               (case analyze s2 cr of
                  None \<Rightarrow> None
                | Some (s3, learnt_clause, backtrack_level) \<Rightarrow>
                    (case cancelUntil s3 backtrack_level of
                       None \<Rightarrow> None
                     | Some s4 \<Rightarrow> map_option (\<lambda>s5. (True, s5)) (learn s4 learnt_clause)))))"

definition addClauseDuringSearch :: "solver \<Rightarrow> lit list \<Rightarrow> (bool \<times> solver) option" where
  "addClauseDuringSearch s clause0 =
     (if length clause0 = 0 then Some (False, s)
      else let clause = sort_by (lit_order s) clause0;
               nu = num_unassigned s clause
      in if \<not> nu \<le> 1 then None
         else if nu = length clause then ingest_unit s clause
         else let highest_dl = level s (var (clause ! nu))
         in if highest_dl = 0 \<and> nu = 0 then Some (False, s)
            else if nu = 1 then ingest_asserting s clause highest_dl
            else if num_highest_dl s clause nu highest_dl > 1 then ingest_conflicting s clause highest_dl
            else if length clause > 1 then ingest_asserting s clause (level s (var (clause ! 1)))
            else ingest_unit s clause)"

section \<open>Search, restarts and enumeration\<close>

text \<open>
  \<^verbatim>\<open>SMSPropagator::checkAssignment\<close>, \<^verbatim>\<open>Solver::search\<close> (\<open>search_iter\<close> is one pass through
  the body of its \<^verbatim>\<open>for (;;)\<close> loop, \<open>on_conflict\<close> and \<open>decide\<close> its two halves,
  \<open>assume_loop\<close> the loop over the assumptions), \<^verbatim>\<open>Solver::solve_\<close> and
  \<^verbatim>\<open>run_solver_enumerate\<close>. \<open>restart_limit\<close> is the expression
  \<^verbatim>\<open>rest_base * restart_first\<close>, a product of doubles, which \<^verbatim>\<open>solve_\<close> passes for the
  \<^verbatim>\<open>int\<close> parameter \<^verbatim>\<open>nof_conflicts\<close> of \<^verbatim>\<open>search\<close>.

  \<open>vec_sized pad n\<close> is \<^verbatim>\<open>vec<Lit> v(n)\<close>: a vector of \<open>n\<close> default literals (the
  source relies on this size in \<^verbatim>\<open>SMSPropagator::blockingClause\<close>, which writes
  \<^verbatim>\<open>lcls[i]\<close> for every \<open>i < n\<close> right after \<^verbatim>\<open>vec<Lit> lcls(n)\<close>).
\<close>

definition ingest :: "solver \<Rightarrow> lit list \<Rightarrow> (int \<times> solver) option" where
  "ingest s cl = map_option (\<lambda>(b, s'). (if b then 0 else - 1, s')) (addClauseDuringSearch s cl)"

definition edge_count :: "env \<Rightarrow> nat" where
  "edge_count e = nat (vertices e * (vertices e - 1) div 2)"

definition checkAssignment :: "env \<Rightarrow> solver \<Rightarrow> bool \<Rightarrow> (int \<times> solver) option" where
  "checkAssignment e s is_full_assignment =
     (case sym_check e s is_full_assignment of
        Some fg \<Rightarrow> ingest s fg
      | None \<Rightarrow>
          (case (if is_full_assignment \<and> prop010 e then col_check e s else None) of
             Some (cl # cls) \<Rightarrow> ingest s cl
           | _ \<Rightarrow>
               if cutoff_active e s
               then let blocking_clause =
                          map (\<lambda>v. mkLit v (value_var s v = l_True))
                              (filter (\<lambda>v. value_var s v \<noteq> l_Undef) [0 ..< edge_count e])
                    in if int (length blocking_clause) \<ge> assignmentCutoff e
                       then ingest s blocking_clause else Some (1, s)
               else Some (1, s)))"

datatype assume_result = Next "lit option" solver | Failed solver

function assume_loop :: "solver \<Rightarrow> assume_result option" where
  "assume_loop s =
     (if decisionLevel s < int (length (assumptions s))
      then let p = assumptions s ! nat (decisionLevel s)
           in if value_lit s p = l_True then assume_loop (newDecisionLevel s)
              else if value_lit s p = l_False
              then map_option Failed (analyzeFinal s (lit_neg p))
              else Some (Next (Some p) s)
      else Some (Next None s))"
  by pat_completeness auto
termination
  by (relation "measure (\<lambda>s. length (assumptions s) - length (trail_lim s))")
     (auto simp: decisionLevel_def newDecisionLevel_def)

declare assume_loop.simps [simp del]

datatype search_step = Return lbool solver | Continue solver int

definition on_conflict :: "solver \<Rightarrow> cref \<Rightarrow> solver option" where
  "on_conflict s confl =
     (case analyze s confl of
        None \<Rightarrow> None
      | Some (s1, learnt_clause, backtrack_level) \<Rightarrow>
          (case cancelUntil s1 backtrack_level of
             None \<Rightarrow> None
           | Some s2 \<Rightarrow>
               (case learn s2 learnt_clause of
                  None \<Rightarrow> None
                | Some s3 \<Rightarrow>
                    let s4 = claDecayActivity (varDecayActivity s3);
                        s5 = s4\<lparr>learntsize_adjust_cnt := learntsize_adjust_cnt s4 - 1\<rparr>
                    in if learntsize_adjust_cnt s5 = 0
                       then (case dbl_mul (learntsize_adjust_confl s5) (learntsize_adjust_inc s5) of
                               None \<Rightarrow> None
                             | Some c \<Rightarrow>
                                 (case double_to_int c of
                                    None \<Rightarrow> None
                                  | Some cnt \<Rightarrow>
                                      Some (s5\<lparr>learntsize_adjust_confl := c,
                                               learntsize_adjust_cnt := cnt,
                                               max_learnts := max_learnts s5 * learntsize_inc s5\<rparr>)))
                       else Some s5)))"

definition decide :: "env \<Rightarrow> solver \<Rightarrow> int \<Rightarrow> search_step option" where
  "decide e s conflictC =
     (case assume_loop s of
        None \<Rightarrow> None
      | Some (Failed s1) \<Rightarrow> Some (Return l_False s1)
      | Some (Next nxt s1) \<Rightarrow>
          (case (case nxt of Some p \<Rightarrow> (Some p, s1) | None \<Rightarrow> pickBranchLit e s1) of
             (None, s2) \<Rightarrow> Some (Return l_True s2)
           | (Some p, s2) \<Rightarrow>
               map_option (\<lambda>s3. Continue s3 conflictC) (uncheckedEnqueue (newDecisionLevel s2) p None)))"

definition search_iter :: "env \<Rightarrow> int \<Rightarrow> solver \<Rightarrow> int \<Rightarrow> search_step option" where
  "search_iter e nof_conflicts s conflictC =
     (case propagate s of
        None \<Rightarrow> None
      | Some (Some confl, s1) \<Rightarrow>
          let s2 = s1\<lparr>conflicts := conflicts s1 + 1\<rparr>
          in if decisionLevel s2 = 0 then Some (Return l_False s2)
             else map_option (\<lambda>s3. Continue s3 (conflictC + 1)) (on_conflict s2 confl)
      | Some (None, s1) \<Rightarrow>
          if (nof_conflicts \<ge> 0 \<and> conflictC \<ge> nof_conflicts) \<or> \<not> withinBudget e s1
          then map_option (Return l_Undef) (cancelUntil s1 0)
          else (case (if decisionLevel s1 = 0 then simplify s1 else Some (True, s1)) of
                  None \<Rightarrow> None
                | Some (simplified, s2) \<Rightarrow>
                    if \<not> simplified then Some (Return l_False s2)
                    else (case (if real_of_int (int (length (learnts s2)) - nAssigns s2) \<ge> max_learnts s2
                                then reduceDB s2 else Some s2) of
                            None \<Rightarrow> None
                          | Some s3 \<Rightarrow>
                              let is_full_graph = list_all (\<lambda>v. value_var s3 v \<noteq> l_Undef) [0 ..< edge_count e]
                              in (case checkAssignment e s3 is_full_graph of
                                    None \<Rightarrow> None
                                  | Some (sms_min_status, s4) \<Rightarrow>
                                      if sms_min_status = 0 then Some (Continue s4 conflictC)
                                      else if sms_min_status = - 1 then Some (Return l_False s4)
                                      else decide e s4 conflictC))))"

partial_function (option) search_loop :: "env \<Rightarrow> int \<Rightarrow> solver \<Rightarrow> int \<Rightarrow> (lbool \<times> solver) option" where
  "search_loop e nof_conflicts s conflictC =
     (case search_iter e nof_conflicts s conflictC of
        None \<Rightarrow> None
      | Some (Return status s') \<Rightarrow> Some (status, s')
      | Some (Continue s' conflictC') \<Rightarrow> search_loop e nof_conflicts s' conflictC')"

declare search_loop.simps [code]

definition search :: "env \<Rightarrow> int \<Rightarrow> solver \<Rightarrow> (lbool \<times> solver) option" where
  "search e nof_conflicts s =
     (if \<not> ok s then None else search_loop e nof_conflicts (s\<lparr>starts := starts s + 1\<rparr>) 0)"

definition rest_base :: "solver \<Rightarrow> nat \<Rightarrow> real option" where
  "rest_base s curr_restarts =
     (if luby_restart s then luby (restart_inc s) curr_restarts
      else dbl_pow (restart_inc s) (int curr_restarts))"

definition restart_limit :: "solver \<Rightarrow> nat \<Rightarrow> real option" where
  "restart_limit s curr_restarts =
     (case rest_base s curr_restarts of
        None \<Rightarrow> None
      | Some b \<Rightarrow> dbl_mul b (real_of_int (restart_first s)))"

partial_function (option) solve_loop :: "env \<Rightarrow> solver \<Rightarrow> nat \<Rightarrow> (lbool \<times> solver) option" where
  "solve_loop e s curr_restarts =
     (case restart_limit s curr_restarts of
        None \<Rightarrow> None
      | Some limit \<Rightarrow>
          (case double_to_int limit of
             None \<Rightarrow> None
           | Some nof_conflicts \<Rightarrow>
               (case search e nof_conflicts s of
                  None \<Rightarrow> None
                | Some (status, s1) \<Rightarrow>
                    if \<not> withinBudget e s1 then Some (status, s1)
                    else if status = l_Undef then solve_loop e s1 (curr_restarts + 1)
                    else Some (status, s1))))"

declare solve_loop.simps [code]

definition solve_impl :: "env \<Rightarrow> solver \<Rightarrow> (lbool \<times> solver) option" where
  "solve_impl e s =
     (let s0 = s\<lparr>model := [], conflict := []\<rparr>
      in if \<not> ok s0 then Some (l_False, s0)
         else let s1 = s0\<lparr>solves := solves s0 + 1\<rparr>;
                  ml = real_of_int (nClauses s1) * learntsize_factor s1;
                  s2 = s1\<lparr>max_learnts := (if ml < real_of_int (min_learnts_lim s1)
                                            then real_of_int (min_learnts_lim s1) else ml),
                         learntsize_adjust_confl := real_of_int (learntsize_adjust_start_confl s1),
                         learntsize_adjust_cnt := learntsize_adjust_start_confl s1\<rparr>
              in (case solve_loop e s2 0 of
                    None \<Rightarrow> None
                  | Some (status, s3) \<Rightarrow>
                      let s4 = (if status = l_True
                                then s3\<lparr>model := map (value_var s3) [0 ..< next_var s3]\<rparr>
                                else if status = l_False \<and> length (conflict s3) = 0
                                then s3\<lparr>ok := False\<rparr> else s3)
                      in map_option (\<lambda>s5. (status, s5)) (cancelUntil s4 0)))"

datatype EnumerationTermination = DONE | TIME | LIMIT

definition vec_sized :: "lit \<Rightarrow> nat \<Rightarrow> lit list" where
  "vec_sized pad n = replicate n pad"

definition enum_blocking_clause :: "lit \<Rightarrow> nat \<Rightarrow> lbool list \<Rightarrow> lit list" where
  "enum_blocking_clause pad m mdl =
     fold (\<lambda>v bc. bc @ [mkLit v (mdl ! v = l_True)]) [0 ..< m] (vec_sized pad m)"

partial_function (option) run_solver_enumerate ::
  "env \<Rightarrow> bool \<Rightarrow> int \<Rightarrow> solver \<Rightarrow> ((int \<times> EnumerationTermination) \<times> solver) option" where
  "run_solver_enumerate e store_solutions max_sol s =
     (case solve_impl e s of
        None \<Rightarrow> None
      | Some (result, s1) \<Rightarrow>
          if result = l_True
          then if length (model s1) < edge_count e then None
               else let m = edge_count e;
                        s2 = s1\<lparr>num_sol := num_sol s1 + 1\<rparr>;
                        blocking_clause = enum_blocking_clause (lit_default e) m (model s2);
                        s3 = (if store_solutions
                              then s2\<lparr>solution_store := solution_store s2 @
                                        [vec_sized (lit_default e) m @ map lit_neg blocking_clause]\<rparr>
                              else s2)
                    in (case addClause_impl s3 blocking_clause of
                          None \<Rightarrow> None
                        | Some (added, s4) \<Rightarrow>
                            if num_sol s4 \<ge> max_sol then Some ((num_sol s4, LIMIT), s4)
                            else run_solver_enumerate e store_solutions max_sol s4)
          else if result = l_Undef then Some ((num_sol s1, TIME), s1)
          else Some ((num_sol s1, DONE), s1))"

declare run_solver_enumerate.simps [code]

section \<open>Construction of a solver\<close>

text \<open>
  The constructor \<^verbatim>\<open>Solver::Solver\<close> with the default options, and \<^verbatim>\<open>Solver::newVar\<close>
  for a decision variable without user polarity.
\<close>

definition Solver_init :: solver where
  "Solver_init =
     \<lparr>ok = True, assigns = (\<lambda>_. l_Undef), vardata = (\<lambda>_. (None, 0)), trail = [], trail_lim = [],
      qhead = 0, ca = [], clauses = [], learnts = [], watches = (\<lambda>_. []), dirty = (\<lambda>_. False),
      seen = (\<lambda>_. 0), analyze_toclear = [], activity = (\<lambda>_. 0), var_inc = 1, cla_inc = 1,
      var_decay = 95 / 100, clause_decay = 999 / 1000, polarity = (\<lambda>_. True),
      user_pol = (\<lambda>_. l_Undef), decision = (\<lambda>_. False), order_heap = [], cflr = None,
      model = [], conflict = [], assumptions = [], next_var = 0, released_vars = [], free_vars = [],
      ccmin_mode = 2, phase_saving = 2, luby_restart = True, restart_first = 100, restart_inc = 2,
      learntsize_factor = 1 / 3, learntsize_inc = 11 / 10, learntsize_adjust_start_confl = 100,
      learntsize_adjust_inc = 3 / 2, min_learnts_lim = 0, remove_satisfied = True, max_learnts = 0,
      learntsize_adjust_confl = 0, learntsize_adjust_cnt = 0, simpDB_assigns = - 1, simpDB_props = 0,
      solves = 0, starts = 0, conflicts = 0, num_clauses = 0, num_learnts = 0, clauses_literals = 0,
      learnts_literals = 0, num_sol = 0, solution_store = []\<rparr>"

definition newVar :: "solver \<Rightarrow> var \<times> solver" where
  "newVar s =
     (let v = (if free_vars s \<noteq> [] then last (free_vars s) else next_var s);
          s1 = (if free_vars s \<noteq> [] then s\<lparr>free_vars := butlast (free_vars s)\<rparr>
                else s\<lparr>next_var := next_var s + 1\<rparr>);
          s2 = s1\<lparr>watches := (watches s1)(mkLit v False := [], mkLit v True := []),
                 assigns := (assigns s1)(v := l_Undef), vardata := (vardata s1)(v := (None, 0)),
                 activity := (activity s1)(v := 0), seen := (seen s1)(v := 0),
                 polarity := (polarity s1)(v := True), user_pol := (user_pol s1)(v := l_Undef),
                 decision := (decision s1)(v := True)\<rparr>
      in (v, insertVarOrder v s2))"

text \<open>
  \<open>plain_env\<close> is the environment of a run without the external checkers: no symmetry
  or colouring clause, no cutoff, no budget limit, no random branching; \<^verbatim>\<open>vec<Lit>\<close> pads
  with the literal of index 0.
\<close>

definition plain_env :: env where
  "plain_env =
     \<lparr>sym_check = (\<lambda>_ _. None), prop010 = False, col_check = (\<lambda>_. None),
      cutoff_active = (\<lambda>_. False), vertices = 0, assignmentCutoff = 0,
      withinBudget = (\<lambda>_. True), rnd_var = (\<lambda>_. None), rnd_pol = False,
      rnd_sign = (\<lambda>_. False), lit_default = Lit 0 False\<rparr>"


section \<open>Properties of the membership test\<close>

definition ascending :: "int list \<Rightarrow> int \<Rightarrow> int \<Rightarrow> bool" where
  "ascending a begin end = (\<forall>i j. begin \<le> i \<and> i \<le> j \<and> j < end \<longrightarrow> a ! nat i \<le> a ! nat j)"

definition occurs :: "int list \<Rightarrow> int \<Rightarrow> int \<Rightarrow> int \<Rightarrow> bool" where
  "occurs a begin end val = (\<exists>i. begin \<le> i \<and> i < end \<and> a ! nat i = val)"

lemma ascendingD: "ascending a b e \<Longrightarrow> b \<le> i \<Longrightarrow> i \<le> j \<Longrightarrow> j < e \<Longrightarrow> a ! nat i \<le> a ! nat j"
  unfolding ascending_def by blast

lemma ascending_sub: "ascending a b e \<Longrightarrow> b \<le> b' \<Longrightarrow> e' \<le> e \<Longrightarrow> ascending a b' e'"
  unfolding ascending_def by (meson order_trans less_le_trans)

lemma occurs_upper:
  assumes asc: "ascending a b e" and m: "b \<le> m" "m < e" and le: "a ! nat m \<le> v"
  shows "occurs a b e v = occurs a m e v"
proof
  assume "occurs a b e v"
  then obtain i where i: "b \<le> i" "i < e" "a ! nat i = v" unfolding occurs_def by blast
  show "occurs a m e v"
  proof (cases "m \<le> i")
    case True with i show ?thesis unfolding occurs_def by blast
  next
    case False
    then have "i \<le> m" by simp
    from ascendingD[OF asc i(1) this m(2)] le i(3) have "a ! nat m = v" by simp
    with m show ?thesis unfolding occurs_def by blast
  qed
next
  assume "occurs a m e v"
  then obtain i where i: "m \<le> i" "i < e" "a ! nat i = v" unfolding occurs_def by blast
  from i(1) m(1) have "b \<le> i" by simp
  with i show "occurs a b e v" unfolding occurs_def by blast
qed

lemma occurs_lower:
  assumes asc: "ascending a b e" and m: "b \<le> m" "m < e" and gt: "\<not> a ! nat m \<le> v"
  shows "occurs a b e v = occurs a b m v"
proof
  assume "occurs a b e v"
  then obtain i where i: "b \<le> i" "i < e" "a ! nat i = v" unfolding occurs_def by blast
  show "occurs a b m v"
  proof (cases "i < m")
    case True with i show ?thesis unfolding occurs_def by blast
  next
    case False
    then have "m \<le> i" by simp
    from ascendingD[OF asc m(1) this i(2)] gt i(3) show ?thesis by simp
  qed
next
  assume "occurs a b m v"
  then obtain i where i: "b \<le> i" "i < m" "a ! nat i = v" unfolding occurs_def by blast
  from i(2) m(2) have "i < e" by simp
  with i show "occurs a b e v" unfolding occurs_def by blast
qed

lemma occurs_empty: "e - b < 1 \<Longrightarrow> \<not> occurs a b e v"
  unfolding occurs_def by auto

lemma occurs_single: "e - b = 1 \<Longrightarrow> occurs a b e v = (a ! nat b = v)"
proof
  assume eb: "e - b = 1" and "occurs a b e v"
  then obtain i where i: "b \<le> i" "i < e" "a ! nat i = v" unfolding occurs_def by blast
  from eb i(1,2) have "i = b" by linarith
  with i(3) show "a ! nat b = v" by simp
next
  assume eb: "e - b = 1" and "a ! nat b = v"
  moreover from eb have "b \<le> b \<and> b < e" by linarith
  ultimately show "occurs a b e v" unfolding occurs_def by blast
qed

lemma in_impl_correct:
  "ascending a b e \<Longrightarrow> in_impl a b e v = (if occurs a b e v then 1 else 0)"
proof (induction a b e v rule: in_impl.induct)
  case (1 a b e v)
  show ?case
  proof (cases "e - b < 1")
    case True
    then show ?thesis using occurs_empty[OF True] by (subst in_impl.simps) simp
  next
    case False
    note nonempty = this
    show ?thesis
    proof (cases "e - b = 1")
      case True
      then show ?thesis using occurs_single[OF True] by (subst in_impl.simps) simp
    next
      case False
      define m where "m = b + (e - b) div 2"
      have mb: "b \<le> m" "m < e" "b < m" using False nonempty unfolding m_def by linarith+
      show ?thesis
      proof (cases "a ! nat m \<le> v")
        case True
        have asc: "ascending a m e" using ascending_sub[OF 1(3) mb(1)] by simp
        have IH: "in_impl a m e v = (if occurs a m e v then 1 else 0)"
          using 1(1)[OF nonempty False m_def True asc] .
        have "in_impl a b e v = in_impl a m e v"
          using True False nonempty by (subst in_impl.simps) (simp add: m_def Let_def)
        with IH occurs_upper[OF 1(3) mb(1) mb(2) True] show ?thesis by simp
      next
        case F: False
        have asc: "ascending a b m" using ascending_sub[OF 1(3), of b m] mb by simp
        have IH: "in_impl a b m v = (if occurs a b m v then 1 else 0)"
          using 1(2)[OF nonempty False m_def F asc] .
        have "in_impl a b e v = in_impl a b m v"
          using F False nonempty by (subst in_impl.simps) (simp add: m_def Let_def)
        with IH occurs_lower[OF 1(3) mb(1) mb(2) F] show ?thesis by simp
      qed
    qed
  qed
qed

lemma range_of_nth:
  assumes "0 \<le> b" "e \<le> int (length a)" "b \<le> i" "i < e"
  shows "range_of a b e ! nat (i - b) = a ! nat i"
proof -
  have "nat (i - b) < nat (e - b)" using assms by linarith
  moreover have "nat b + nat (i - b) = nat i" using assms by linarith
  moreover have "nat b + nat (i - b) < length a" using assms by linarith
  ultimately show ?thesis unfolding range_of_def by (simp add: nth_take)
qed

lemma range_of_length:
  assumes "0 \<le> b" "e \<le> int (length a)"
  shows "length (range_of a b e) = nat (e - b)"
  using assms unfolding range_of_def by simp

lemma occurs_range_of:
  assumes "0 \<le> b" "e \<le> int (length a)"
  shows "occurs a b e v = (v \<in> set (range_of a b e))"
proof
  assume "occurs a b e v"
  then obtain i where i: "b \<le> i" "i < e" "a ! nat i = v" unfolding occurs_def by blast
  have "nat (i - b) < length (range_of a b e)" using i range_of_length[OF assms] by linarith
  moreover have "range_of a b e ! nat (i - b) = v" using range_of_nth[OF assms i(1,2)] i(3) by simp
  ultimately show "v \<in> set (range_of a b e)" using nth_mem by blast
next
  assume "v \<in> set (range_of a b e)"
  then obtain k where k: "k < length (range_of a b e)" "range_of a b e ! k = v"
    by (auto simp: in_set_conv_nth)
  define i where "i = b + int k"
  have ib: "b \<le> i" "i < e" using k(1) range_of_length[OF assms] unfolding i_def by linarith+
  have "nat (i - b) = k" unfolding i_def by simp
  with range_of_nth[OF assms ib] k(2) have "a ! nat i = v" by simp
  with ib show "occurs a b e v" unfolding occurs_def by blast
qed

lemma ascending_range_of:
  assumes "0 \<le> b" "e \<le> int (length a)" "sorted (range_of a b e)"
  shows "ascending a b e"
  unfolding ascending_def
proof (intro allI impI)
  fix i j assume ij: "b \<le> i \<and> i \<le> j \<and> j < e"
  have len: "length (range_of a b e) = nat (e - b)" by (rule range_of_length[OF assms(1,2)])
  have "nat (i - b) \<le> nat (j - b)" "nat (j - b) < length (range_of a b e)"
    using ij len by linarith+
  then have "range_of a b e ! nat (i - b) \<le> range_of a b e ! nat (j - b)"
    using assms(3) by (simp add: sorted_iff_nth_mono)
  moreover have "range_of a b e ! nat (i - b) = a ! nat i"
    using range_of_nth[OF assms(1,2), of i] ij by simp
  moreover have "range_of a b e ! nat (j - b) = a ! nat j"
    using range_of_nth[OF assms(1,2), of j] ij by simp
  ultimately show "a ! nat i \<le> a ! nat j" by simp
qed

text \<open>
  C10. On a range \<open>[begin, end)\<close> of an \<open>int\<close> array that is sorted in ascending order,
  \<open>in(begin, end, val)\<close> returns 1 if \<open>val\<close> occurs in the range and 0 otherwise; on the
  empty range the list \<open>range_of a begin end\<close> is empty and the result is 0.
\<close>

theorem in_sorted_membership:
  assumes "0 \<le> begin" and "end \<le> int (length a)" and "sorted (range_of a begin end)"
  shows "in_impl a begin end val = (if val \<in> set (range_of a begin end) then 1 else 0)"
  using in_impl_correct[OF ascending_range_of[OF assms]] occurs_range_of[OF assms(1,2)]
  by simp

theorem in_sorted_membership_witness:
  "sorted (range_of [1, 3, 5, 7] 0 4) \<and> in_impl [1, 3, 5, 7] 0 4 5 = 1
   \<and> in_impl [1, 3, 5, 7] 0 4 4 = 0 \<and> in_impl [1, 3, 5, 7] 2 2 5 = 0"
proof -
  have s1: "sorted (range_of [1, 3, 5, 7] 0 4)" by (simp add: range_of_def)
  have s2: "sorted (range_of [1, 3, 5, 7] 2 2)" by (simp add: range_of_def)
  have b: "(0::int) \<le> 0" "(0::int) \<le> 2" by simp_all
  have e: "(4::int) \<le> int (length [1, 3, 5, 7::int])" "(2::int) \<le> int (length [1, 3, 5, 7::int])"
    by simp_all
  show ?thesis
    using s1 in_sorted_membership[OF b(1) e(1) s1, of 5] in_sorted_membership[OF b(1) e(1) s1, of 4]
      in_sorted_membership[OF b(2) e(2) s2, of 5]
    by (simp add: range_of_def)
qed


section \<open>Properties of the double arithmetic\<close>

lemma expo_up_bound:
  "a < 2 ^ Suc k \<Longrightarrow> e \<le> expo_up n a e \<and> expo_up n a e \<le> e + int k"
proof (induction n arbitrary: a e k)
  case 0
  then show ?case by simp
next
  case (Suc n)
  show ?case
  proof (cases "a < 2")
    case True
    then show ?thesis by simp
  next
    case False
    with Suc.prems obtain j where k: "k = Suc j" by (cases k) auto
    from Suc.prems have "a / 2 < 2 ^ Suc j" unfolding k by simp
    from Suc.IH[OF this, of "e + 1"] False show ?thesis unfolding k by simp
  qed
qed

lemma expo_down_le: "expo_down n a e \<le> e"
proof (induction n arbitrary: a e)
  case 0
  then show ?case by simp
next
  case (Suc n)
  from Suc[of "2 * a" "e - 1"] show ?case by simp
qed

lemma round_even_of_int: "round_even (of_int m) = m"
  unfolding round_even_def by simp

lemma dbl_round_of_int:
  assumes "\<bar>n\<bar> < 2 ^ 53"
  shows "dbl_round (of_int n) = Some (of_int n)"
proof (cases "n = 0")
  case True
  have "\<not> 1024 \<le> expo_down 1022 0 0" "expo_down 1022 0 0 \<noteq> 1023"
    using expo_down_le[of 1022 0 0] by simp_all
  with True show ?thesis unfolding dbl_round_def by (simp add: round_even_def Let_def)
next
  case False
  define a :: real where "a = \<bar>of_int n\<bar>"
  have aa: "a = of_int \<bar>n\<bar>" unfolding a_def by simp
  have "1 \<le> \<bar>n\<bar>" using False by simp
  then have a1: "1 \<le> a" unfolding aa by (simp only: of_int_1_le_iff)
  have "real_of_int \<bar>n\<bar> < of_int (2 ^ 53)" using assms by (simp only: of_int_less_iff)
  then have a53: "a < 2 ^ Suc 52" unfolding aa by simp
  define e where "e = expo_up 1024 a 0"
  from expo_up_bound[OF a53, of 0 1024] have eb: "0 \<le> e" "e \<le> 52" unfolding e_def by simp_all
  define j where "j = nat (52 - e)"
  have u: "2 powi (e - 52) = 1 / (2::real) ^ j"
    using eb unfolding j_def by (simp add: power_int_def field_simps)
  have q: "a / (2 powi (e - 52)) = of_int (\<bar>n\<bar> * 2 ^ j)" unfolding u a_def by simp
  have r: "of_int (round_even (a / (2 powi (e - 52)))) * (2 powi (e - 52)) = a"
    unfolding q round_even_of_int unfolding u a_def by simp
  have lt: "\<not> (1024 \<le> e \<or> (e = 1023 \<and> round_even (a / (2 powi (e - 52))) = 2 ^ 53))"
    using eb by simp
  have s: "sgn (real_of_int n) * a = of_int n" unfolding a_def by (simp add: sgn_mult_abs)
  show ?thesis
    unfolding dbl_round_def Let_def a_def[symmetric] if_P[OF a1] e_def[symmetric] if_not_P[OF lt] r s
    by (rule refl)
qed

section \<open>Properties of the restart sequence\<close>

lemma length_luby_block: "length (luby_block n) = 2 ^ Suc n - 1"
proof (induction n)
  case 0 show ?case by simp
next
  case (Suc n)
  have "(2::nat) ^ Suc n \<ge> 1" by simp
  with Suc show ?case by simp
qed

lemma luby_block_prefix: "x < length (luby_block n) \<Longrightarrow> luby_block (n + d) ! x = luby_block n ! x"
proof (induction d)
  case 0 show ?case by simp
next
  case (Suc d)
  have "(2::nat) ^ n \<le> 2 ^ (n + d)" by simp
  then have "x < length (luby_block (n + d))" using Suc.prems unfolding length_luby_block
    by (simp del: power_increasing_iff)
  then show ?case using Suc by (simp add: nth_append)
qed

lemma pw2: "1 \<le> (2::nat) ^ n"
  by simp

lemma luby_arith:
  fixes p :: nat
  assumes "1 \<le> p"
  shows "2 * (2 * p - 1) + 1 = 2 * (2 * p) - 1"
    and "0 < 2 * p - 1"
    and "nat ((int (2 * (2 * p) - 1) - 1) div 2) = 2 * p - 1"
    and "x < 2 * (2 * p) - 1 \<Longrightarrow> x \<noteq> 2 * (2 * p) - 2 \<Longrightarrow> x < 2 * (2 * p - 1)"
    and "(int (2 * (2 * p) - 1) - 1 = int x) = (x = 2 * (2 * p) - 2)"
    and "2 * (2 * p) - 2 = (2 * p - 1) + (2 * p - 1)"
  using assms by linarith+

lemma luby_up_spec:
  "sz = 2 ^ Suc s - 1 \<Longrightarrow> s = 0 \<or> 2 ^ s - 1 \<le> x \<Longrightarrow>
   \<exists>t. luby_up sz (int s) x = (2 ^ Suc t - 1, int t) \<and> x < 2 ^ Suc t - 1 \<and> (t = 0 \<or> 2 ^ t - 1 \<le> x)"
proof (induction sz "int s" x arbitrary: s rule: luby_up.induct)
  case (1 sz x)
  show ?case
  proof (cases "sz < x + 1")
    case True
    have sz: "2 * sz + 1 = 2 ^ Suc (Suc s) - 1"
      using luby_arith(1)[OF pw2[of s]] 1(2) by (simp only: power_Suc)
    have eq: "int s + 1 = int (Suc s)" by simp
    have "Suc s = 0 \<or> 2 ^ Suc s - 1 \<le> x" using True 1(2) by simp
    from 1(1)[OF True eq sz this]
    obtain t where "luby_up (2 * sz + 1) (int (Suc s)) x = (2 ^ Suc t - 1, int t)"
      "x < 2 ^ Suc t - 1" "t = 0 \<or> 2 ^ t - 1 \<le> x"
      by auto
    moreover have "luby_up sz (int s) x = luby_up (2 * sz + 1) (int (Suc s)) x"
      using True by (subst luby_up.simps) (simp only: if_True eq)
    ultimately show ?thesis by metis
  next
    case False
    then show ?thesis using 1(2,3) by (subst luby_up.simps) auto
  qed
qed

lemma luby_down_spec:
  "x < 2 ^ Suc t - 1 \<Longrightarrow>
   \<exists>r. luby_down (2 ^ Suc t - 1) (int t) x = Some (int r) \<and> 2 ^ r = luby_block t ! x"
proof (induction t arbitrary: x)
  case 0
  then have "x = 0" by simp
  then have "luby_down (2 ^ Suc 0 - 1) (int 0) x = Some (int 0)"
    by (subst luby_down.simps) simp
  moreover have "(2::nat) ^ 0 = luby_block 0 ! x" using \<open>x = 0\<close> by simp
  ultimately show ?case by blast
next
  case (Suc t)
  define p where "p = (2::nat) ^ t"
  have p1: "1 \<le> p" by (simp add: p_def)
  have pow1: "(2::nat) ^ Suc t = 2 * p" and pow2: "(2::nat) ^ Suc (Suc t) = 2 * (2 * p)"
    by (simp_all add: p_def)
  have len: "length (luby_block t) = 2 * p - 1" by (simp only: length_luby_block pow1)
  note ar = luby_arith[OF p1]
  have xlt: "x < 2 * (2 * p) - 1" using Suc.prems by (simp only: pow2)
  show ?case
  proof (cases "x = 2 * (2 * p) - 2")
    case True
    have "\<not> (int (2 * (2 * p) - 1) - 1 \<noteq> int x)" using ar(5)[of x] True by simp
    then have "luby_down (2 * (2 * p) - 1) (int (Suc t)) x = Some (int (Suc t))"
      by (subst luby_down.simps) (simp only: if_False)
    moreover have "luby_block (Suc t) ! x = 2 ^ Suc t"
    proof -
      have "x = length (luby_block t @ luby_block t)" using True ar(6) by (simp only: length_append len)
      then show ?thesis by (simp only: luby_block.simps append_assoc[symmetric] nth_append_length)
    qed
    ultimately show ?thesis unfolding pow2 by (intro exI[of _ "Suc t"]) simp
  next
    case False
    have ne: "int (2 * (2 * p) - 1) - 1 \<noteq> int x" using ar(5)[of x] False by simp
    have modlt: "x mod (2 * p - 1) < 2 ^ Suc t - 1" using ar(2) by (simp only: pow1 mod_less_divisor)
    from Suc.IH[OF modlt] obtain r where
      r: "luby_down (2 * p - 1) (int t) (x mod (2 * p - 1)) = Some (int r)"
         "2 ^ r = luby_block t ! (x mod (2 * p - 1))"
      unfolding pow1 by blast
    have step: "luby_down (2 * (2 * p) - 1) (int (Suc t)) x = luby_down (2 * p - 1) (int t) (x mod (2 * p - 1))"
    proof -
      have a: "int (Suc t) - 1 = int t" by simp
      have b: "2 * p - 1 \<noteq> 0" using ar(2) by simp
      show ?thesis
        by (subst luby_down.simps) (simp only: ne if_True Let_def ar(3) b if_False a simp_thms)
    qed
    have x2: "x < 2 * (2 * p - 1)" using ar(4)[OF xlt False] .
    have idx: "luby_block (Suc t) ! x = luby_block t ! (x mod (2 * p - 1))"
    proof (cases "x < 2 * p - 1")
      case True
      then show ?thesis by (simp add: nth_append len)
    next
      case F: False
      define y where "y = x - length (luby_block t)"
      have ylt: "y < length (luby_block t)" using x2 F unfolding y_def len by linarith
      have nlt: "\<not> x < length (luby_block t)" using F unfolding len .
      have "x mod (2 * p - 1) = y" using x2 F unfolding y_def len by (simp add: mod_if)
      moreover have "luby_block (Suc t) ! x = luby_block t ! y"
        by (simp only: luby_block.simps nth_append nlt if_False y_def[symmetric] ylt if_True)
      ultimately show ?thesis by simp
    qed
    from step r idx show ?thesis unfolding pow2 by auto
  qed
qed

lemma luby_block_le: "x \<in> set (luby_block n) \<Longrightarrow> x \<le> 2 ^ n"
proof (induction n)
  case 0
  then show ?case by simp
next
  case (Suc n)
  then have "x \<in> set (luby_block n) \<or> x = 2 ^ Suc n" by auto
  then show ?case
  proof
    assume "x \<in> set (luby_block n)"
    then have "x \<le> 2 ^ n" by (rule Suc.IH)
    then show ?thesis by simp
  next
    assume "x = 2 ^ Suc n"
    then show ?thesis by simp
  qed
qed

lemma dbl_pow_two:
  assumes "r \<le> 52"
  shows "dbl_pow 2 (int r) = Some (2 ^ r)"
proof -
  have "(2::int) ^ r \<le> 2 ^ 52" using assms by (intro power_increasing) simp_all
  then have "\<bar>(2::int) ^ r\<bar> < 2 ^ 53" by simp
  from dbl_round_of_int[OF this] show ?thesis unfolding dbl_pow_def by simp
qed

lemma luby_two:
  assumes "int k < 2 ^ 31 - 1"
  shows "luby 2 k = Some (real (luby_sequence k))"
proof -
  have kn: "k < 2 ^ 31 - 1" using assms by simp
  obtain t where t: "luby_up 1 0 k = (2 ^ Suc t - 1, int t)" "k < 2 ^ Suc t - 1" "t = 0 \<or> 2 ^ t - 1 \<le> k"
    using luby_up_spec[of 1 0 k] by auto
  obtain r where r: "luby_down (2 ^ Suc t - 1) (int t) k = Some (int r)" "2 ^ r = luby_block t ! k"
    using luby_down_spec[OF t(2)] by blast
  have "t \<le> k"
  proof (cases "t = 0")
    case True then show ?thesis by simp
  next
    case False
    with t(3) have "2 ^ t - 1 \<le> k" by simp
    moreover have "t < 2 ^ t" by (rule less_exp)
    ultimately show ?thesis by linarith
  qed
  then obtain d where "k = t + d" using le_Suc_ex by blast
  then have "luby_block k ! k = luby_block t ! k"
    using luby_block_prefix[of k t d] t(2) by (simp add: length_luby_block)
  with r have ls: "luby_sequence k = 2 ^ r" by (simp add: luby_sequence_def)
  have t31: "t < 31"
  proof (cases "t = 0")
    case True then show ?thesis by simp
  next
    case False
    with t(3) kn have "(2::nat) ^ t - 1 < 2 ^ 31 - 1" by simp
    then have "(2::nat) ^ t < 2 ^ 31" by simp
    then show ?thesis by (simp only: power_strict_increasing_iff rel_simps)
  qed
  have "luby_block t ! k \<in> set (luby_block t)"
    using t(2) by (intro nth_mem) (simp add: length_luby_block)
  from luby_block_le[OF this] have "(2::nat) ^ r \<le> 2 ^ t" unfolding r(2) .
  then have "r \<le> t" by (simp only: power_increasing_iff rel_simps)
  with t31 have "r \<le> 52" by simp
  from dbl_pow_two[OF this] have pw: "dbl_pow 2 (int r) = Some (real (luby_sequence k))"
    unfolding ls by simp
  have ng: "\<not> 2 ^ 31 - 1 \<le> int k" using assms by simp
  show ?thesis using t(1) r(1) pw ng by (simp add: luby_def)
qed


lemma restart_limit_luby2:
  assumes "luby_restart s" "restart_inc s = 2" "int k < 2 ^ 31 - 1"
    and "\<bar>int (luby_sequence k) * restart_first s\<bar> < 2 ^ 53"
  shows "restart_limit s k = Some (real_of_int (int (luby_sequence k) * restart_first s))"
proof -
  have "real (luby_sequence k) * real_of_int (restart_first s)
          = real_of_int (int (luby_sequence k) * restart_first s)" by simp
  then have "dbl_mul (real (luby_sequence k)) (real_of_int (restart_first s))
          = Some (real_of_int (int (luby_sequence k) * restart_first s))"
    unfolding dbl_mul_def using dbl_round_of_int[OF assms(4)] by simp
  then show ?thesis
    unfolding restart_limit_def rest_base_def using assms(1,2) luby_two[OF assms(3)] by simp
qed

lemma luby_sequence_block:
  assumes "k < length (luby_block n)"
  shows "luby_sequence k = luby_block n ! k"
proof (cases "n \<le> k")
  case True
  then obtain d where "k = n + d" using le_Suc_ex by blast
  then show ?thesis using luby_block_prefix[OF assms, of d] by (simp add: luby_sequence_def)
next
  case False
  then obtain d where d: "n = k + d" using le_Suc_ex[of k n] by auto
  have "k < 2 ^ k" by (rule less_exp)
  then have "k < length (luby_block k)" unfolding length_luby_block power_Suc by linarith
  from luby_block_prefix[OF this, of d] d show ?thesis by (simp add: luby_sequence_def)
qed

lemma luby_block_3: "luby_block 3 = [1, 1, 2, 1, 1, 2, 4, 1, 1, 2, 1, 1, 2, 4, 8]"
  by (simp add: eval_nat_numeral)




text \<open>
  With \<open>restart_first = 2^30\<close>, a value the option accepts, the product at counter 2 is
  \<open>2 * 2^30 = 2^31\<close>, which is not a value of \<^verbatim>\<open>int\<close>: the conversion is undefined and no
  limit is passed to \<open>search\<close>.
\<close>

definition wide_restart :: solver where
  "wide_restart = Solver_init\<lparr>restart_first := 2 ^ 30\<rparr>"

theorem restart_limit_exceeds_int:
  "luby_restart wide_restart \<and> restart_inc wide_restart = 2 \<and> restart_first wide_restart = 2 ^ 30
   \<and> luby 2 2 = Some 2
   \<and> restart_limit wide_restart 2 = Some (2 ^ 31)
   \<and> double_to_int (2 ^ 31) = None
   \<and> solve_loop plain_env wide_restart 2 = None"
proof -
  have h: "luby_restart wide_restart" "restart_inc wide_restart = 2" "restart_first wide_restart = 2 ^ 30"
    by (simp_all add: wide_restart_def Solver_init_def)
  have "luby_sequence 2 = luby_block 3 ! 2" by (rule luby_sequence_block) (simp add: luby_block_3)
  then have l2: "luby_sequence 2 = 2" by (simp add: luby_block_3)
  have lb: "luby 2 2 = Some 2" using luby_two[of 2] l2 by simp
  have rl: "restart_limit wide_restart 2 = Some (2 ^ 31)"
    using restart_limit_luby2[of wide_restart 2] h l2 by simp
  have cv: "double_to_int (2 ^ 31) = None" unfolding double_to_int_def by simp
  have sl: "solve_loop plain_env wide_restart 2 = None"
    by (subst solve_loop.simps) (simp only: rl cv option.case)
  from h lb rl cv sl show ?thesis by simp
qed

section \<open>What conflict analysis leaves unchanged\<close>

text \<open>
  Conflict analysis writes the marks \<open>seen\<close>, \<open>analyze_toclear\<close>, the activities and their
  increments; of a clause it changes the activity only.
\<close>

definition analysis_frame :: "solver \<Rightarrow> solver \<Rightarrow> bool" where
  "analysis_frame s s' =
     (s' = s\<lparr>seen := seen s', analyze_toclear := analyze_toclear s', activity := activity s',
             var_inc := var_inc s', cla_inc := cla_inc s', ca := ca s'\<rparr>
      \<and> map lits (ca s') = map lits (ca s) \<and> map learnt (ca s') = map learnt (ca s)
      \<and> map mark (ca s') = map mark (ca s))"

lemma analysis_frame_refl: "analysis_frame s s"
  unfolding analysis_frame_def by simp

lemma analysis_frame_trans:
  assumes "analysis_frame s s'" "analysis_frame s' s''"
  shows "analysis_frame s s''"
proof -
  from assms(1) have a: "s' = s\<lparr>seen := seen s', analyze_toclear := analyze_toclear s', activity := activity s',
             var_inc := var_inc s', cla_inc := cla_inc s', ca := ca s'\<rparr>"
    unfolding analysis_frame_def by blast
  from assms(2) have b: "s'' = s'\<lparr>seen := seen s'', analyze_toclear := analyze_toclear s'', activity := activity s'',
             var_inc := var_inc s'', cla_inc := cla_inc s'', ca := ca s''\<rparr>"
    unfolding analysis_frame_def by blast
  have "s'' = s\<lparr>seen := seen s'', analyze_toclear := analyze_toclear s'', activity := activity s'',
             var_inc := var_inc s'', cla_inc := cla_inc s'', ca := ca s''\<rparr>"
    by (subst b, subst a) simp
  then show ?thesis using assms unfolding analysis_frame_def by simp
qed

lemma analysis_frame_seen: "analysis_frame s (s\<lparr>seen := x\<rparr>)"
  unfolding analysis_frame_def by simp

lemma analysis_frame_seen_toclear: "analysis_frame s (s\<lparr>seen := x, analyze_toclear := y\<rparr>)"
  unfolding analysis_frame_def by simp

lemma analysis_frame_toclear: "analysis_frame s (s\<lparr>analyze_toclear := y\<rparr>)"
  unfolding analysis_frame_def by simp

lemma analysis_frame_varBump: "analysis_frame s (varBumpActivity v s)"
  unfolding analysis_frame_def varBumpActivity_def by (simp add: Let_def)

lemma map_update_same: "f y = f (xs ! r) \<Longrightarrow> map f (xs[r := y]) = map f xs"
proof (cases "r < length xs")
  case True
  assume "f y = f (xs ! r)"
  with True show ?thesis by (simp add: map_update list_update_same_conv)
next
  case False
  then have "xs[r := y] = xs" by (intro list_update_beyond) simp
  then show ?thesis by simp
qed

lemma rescale_fold_map:
  assumes g: "\<And>c a. g (c\<lparr>cl_activity := a\<rparr>) = g c"
  shows "map g (fold (\<lambda>r cs. cs[r := (cs ! r)\<lparr>cl_activity := f cs r\<rparr>]) rs cs) = map g cs"
proof (induction rs arbitrary: cs)
  case Nil
  show ?case by simp
next
  case (Cons r rs)
  have "map g (fold (\<lambda>r cs. cs[r := (cs ! r)\<lparr>cl_activity := f cs r\<rparr>]) (r # rs) cs)
      = map g (fold (\<lambda>r cs. cs[r := (cs ! r)\<lparr>cl_activity := f cs r\<rparr>]) rs
          (cs[r := (cs ! r)\<lparr>cl_activity := f cs r\<rparr>]))" by simp
  also have "\<dots> = map g (cs[r := (cs ! r)\<lparr>cl_activity := f cs r\<rparr>])" by (rule Cons.IH)
  also have "\<dots> = map g cs" by (rule map_update_same) (rule g)
  finally show ?case .
qed

lemma analysis_frame_claBump: "analysis_frame s (claBumpActivity cr s)"
proof -
  have u: "map lits ((ca s)[cr := (ca s ! cr)\<lparr>cl_activity := a\<rparr>]) = map lits (ca s)"
       "map learnt ((ca s)[cr := (ca s ! cr)\<lparr>cl_activity := a\<rparr>]) = map learnt (ca s)"
       "map mark ((ca s)[cr := (ca s ! cr)\<lparr>cl_activity := a\<rparr>]) = map mark (ca s)" for a
    by (rule map_update_same, simp)+
  have r: "map lits (fold (\<lambda>r cs. cs[r := (cs ! r)\<lparr>cl_activity := f cs r\<rparr>]) rs cs) = map lits cs"
       "map learnt (fold (\<lambda>r cs. cs[r := (cs ! r)\<lparr>cl_activity := f cs r\<rparr>]) rs cs) = map learnt cs"
       "map mark (fold (\<lambda>r cs. cs[r := (cs ! r)\<lparr>cl_activity := f cs r\<rparr>]) rs cs) = map mark cs"
    for f rs cs
    by (rule rescale_fold_map, simp)+
  show ?thesis
    unfolding analysis_frame_def claBumpActivity_def
    by (simp add: Let_def u r)
qed

lemma analysis_frame_analyze_lit:
  "analysis_frame s (fst st) \<Longrightarrow> analysis_frame s (fst (analyze_lit q st))"
proof -
  assume a: "analysis_frame s (fst st)"
  obtain s0 pc ol where st: "st = (s0, pc, ol)" by (cases st) auto
  have "analysis_frame s0 ((varBumpActivity (var q) s0)\<lparr>seen := x\<rparr>)" for x
    using analysis_frame_trans[OF analysis_frame_varBump analysis_frame_seen] .
  then show ?thesis
    using a st analysis_frame_trans[of s s0] unfolding analyze_lit_def by (auto simp: Let_def)
qed

lemma analysis_frame_fold_analyze_lit:
  "analysis_frame s (fst st) \<Longrightarrow> analysis_frame s (fst (fold analyze_lit qs st))"
proof (induction qs arbitrary: st)
  case Nil then show ?case by simp
next
  case (Cons q qs)
  from Cons.IH[OF analysis_frame_analyze_lit[OF Cons.prems]] show ?case by simp
qed

lemma analysis_frame_analyze_clause:
  "analysis_frame s (fst (analyze_clause s cr p pathC out))"
  unfolding analyze_clause_def Let_def
  by (rule analysis_frame_fold_analyze_lit) (simp add: analysis_frame_refl analysis_frame_claBump)

lemma analyze_loop_Some:
  assumes "analyze_loop s confl p pathC out idx = Some r"
  obtains cr s2 pathC2 out2 i where
    "confl = Some cr" "cr < length (ca s)" "idx \<le> length (trail s)"
    "analyze_clause s cr p pathC out = (s2, pathC2, out2)"
    "find_seen s2 idx = Some i"
    "pathC2 - 1 > 0 \<Longrightarrow>
       analyze_loop (s2\<lparr>seen := (seen s2)(var (trail s2 ! i) := 0)\<rparr>) (reason s2 (var (trail s2 ! i)))
         (Some (trail s2 ! i)) (pathC2 - 1) out2 i = Some r"
    "\<not> pathC2 - 1 > 0 \<Longrightarrow> r = (s2\<lparr>seen := (seen s2)(var (trail s2 ! i) := 0)\<rparr>, trail s2 ! i, out2)"
proof -
  from assms obtain cr where cr: "confl = Some cr"
    by (subst (asm) analyze_loop.simps) (simp split: option.splits)
  obtain s2 pathC2 out2 where ac: "analyze_clause s cr p pathC out = (s2, pathC2, out2)"
    by (cases "analyze_clause s cr p pathC out") auto
  from assms have eq: "(if \<not> cr < length (ca s) \<or> length (trail s) < idx then None
          else (case find_seen s2 idx of
                       None \<Rightarrow> None
                     | Some i \<Rightarrow>
                         let p' = trail s2 ! i;
                             s3 = s2\<lparr>seen := (seen s2)(var p' := 0)\<rparr>
                         in if pathC2 - 1 > 0
                            then analyze_loop s3 (reason s2 (var p')) (Some p') (pathC2 - 1) out2 i
                            else Some (s3, p', out2))) = Some r"
    by (subst (asm) analyze_loop.simps) (simp only: cr option.case ac prod.case)
  then have rng: "cr < length (ca s)" "idx \<le> length (trail s)"
    by (simp_all split: if_splits)
  with eq obtain i where i: "find_seen s2 idx = Some i"
    by (simp split: option.splits)
  from eq rng i have h1:
    "pathC2 - 1 > 0 \<Longrightarrow>
       analyze_loop (s2\<lparr>seen := (seen s2)(var (trail s2 ! i) := 0)\<rparr>) (reason s2 (var (trail s2 ! i)))
         (Some (trail s2 ! i)) (pathC2 - 1) out2 i = Some r"
    by (simp add: Let_def)
  from eq rng i have h2:
    "\<not> pathC2 - 1 > 0 \<Longrightarrow> r = (s2\<lparr>seen := (seen s2)(var (trail s2 ! i) := 0)\<rparr>, trail s2 ! i, out2)"
    by (simp add: Let_def)
  show ?thesis by (rule that[OF cr rng(1) rng(2) ac i h1 h2])
qed

lemma analysis_frame_analyze_loop:
  "analyze_loop s confl p pathC out idx = Some r \<Longrightarrow> analysis_frame s (fst r)"
proof (induction s confl p pathC out idx arbitrary: r rule: analyze_loop.induct)
  case (1 s confl p pathC out_learnt idx)
  note IH = "1.IH" and prems = "1.prems"
  show ?case
  proof (rule analyze_loop_Some[OF prems], goal_cases unfolded)
    case u: (unfolded cr s2 pathC2 out2 i)
    have f2: "analysis_frame s s2"
      using analysis_frame_analyze_clause[of s cr p pathC out_learnt] u(4) by simp
    have f3: "analysis_frame s (s2\<lparr>seen := (seen s2)(var (trail s2 ! i) := 0)\<rparr>)"
      using analysis_frame_trans[OF f2 analysis_frame_seen] .
    show ?case
    proof (cases "pathC2 - 1 > 0")
      case True
      have nb: "\<not> (\<not> cr < length (ca s) \<or> length (trail s) < idx)" using u(2,3) by simp
      have "analysis_frame (s2\<lparr>seen := (seen s2)(var (trail s2 ! i) := 0)\<rparr>) (fst r)"
        using IH[OF u(1) nb u(4)[symmetric] refl u(5) refl refl True u(6)[OF True]] .
      with f3 show ?thesis by (rule analysis_frame_trans)
    next
      case False
      with u(7) f3 show ?thesis by simp
    qed
  qed
qed

section \<open>Conflict analysis: frame and backtrack level\<close>

lemma analysis_frame_mark_failed: "analysis_frame s (fold mark_failed es s)"
proof (induction es arbitrary: s)
  case Nil show ?case by (simp add: analysis_frame_refl)
next
  case (Cons e es)
  have "analysis_frame s (mark_failed e s)"
    unfolding mark_failed_def by (simp add: Let_def analysis_frame_refl analysis_frame_seen_toclear)
  from analysis_frame_trans[OF this Cons.IH] show ?case by simp
qed

lemma analysis_frame_litRedundant_loop:
  assumes "litRedundant_loop s p i c stack = Some r"
  shows "analysis_frame s (snd r)"
  using assms
proof (induction arbitrary: rule: litRedundant_loop.raw_induct[rotated 1, consumes 1])
  case (1 lrl s p i c stack r)
  show ?case
  proof (cases "i < length c")
    case True
    note lt = this
    define l where "l = c ! i"
    show ?thesis
    proof (cases "level s (var l) = 0 \<or> seen s (var l) = 1 \<or> seen s (var l) = 2")
      case True
      with 1(2) lt have "lrl s p (i + 1) c stack = Some r" by (simp add: l_def Let_def)
      from 1(1)[OF this] show ?thesis .
    next
      case False
      note nskip = this
      show ?thesis
      proof (cases "reason s (var l) = None \<or> seen s (var l) = 3")
        case True
        with 1(2) lt nskip have "r = (False, fold mark_failed (stack @ [(0, p)]) s)"
          by (simp add: l_def Let_def)
        then show ?thesis using analysis_frame_mark_failed[of s "stack @ [(0, p)]"] by simp
      next
        case False
        then obtain rr where rr: "reason s (var l) = Some rr" by auto
        with 1(2) lt nskip False have "lrl s l 1 (lits (ca s ! rr)) (stack @ [(i, p)]) = Some r"
          by (simp add: l_def Let_def split: if_splits)
        from 1(1)[OF this] show ?thesis .
      qed
    qed
  next
    case False
    note ge = this
    define s1 where "s1 = (if seen s (var p) = 0
                     then s\<lparr>seen := (seen s)(var p := 2), analyze_toclear := analyze_toclear s @ [p]\<rparr>
                     else s)"
    have f1: "analysis_frame s s1"
      unfolding s1_def by (simp add: analysis_frame_refl analysis_frame_seen_toclear)
    show ?thesis
    proof (cases "stack = []")
      case True
      with 1(2) ge have "r = (True, s1)" by (simp add: s1_def Let_def)
      with f1 show ?thesis by simp
    next
      case False
      with 1(2) ge obtain rr where
        "lrl s1 (snd (last stack)) (fst (last stack) + 1) (lits (ca s1 ! rr)) (butlast stack) = Some r"
        by (simp add: s1_def[symmetric] Let_def split: option.splits if_splits)
      from 1(1)[OF this] have "analysis_frame s1 (snd r)" .
      with f1 show ?thesis by (rule analysis_frame_trans)
    qed
  qed
qed

lemma analysis_frame_litRedundant:
  "litRedundant s p = Some r \<Longrightarrow> analysis_frame s (snd r)"
  unfolding litRedundant_def
  by (auto split: if_splits option.splits dest: analysis_frame_litRedundant_loop)

lemma analysis_frame_minimize_deep:
  "minimize_deep s ls kept = Some r \<Longrightarrow> analysis_frame s (fst r)"
proof (induction ls arbitrary: s kept)
  case Nil
  then show ?case by (auto simp: analysis_frame_refl)
next
  case (Cons l ls)
  show ?case
  proof (cases "reason s (var l) = None")
    case True
    with Cons.prems have "minimize_deep s ls (kept @ [l]) = Some r" by simp
    from Cons.IH[OF this] show ?thesis .
  next
    case False
    with Cons.prems obtain red s1 where lr: "litRedundant s l = Some (red, s1)"
      and rest: "minimize_deep s1 ls (if red then kept else kept @ [l]) = Some r"
      by (auto split: option.splits)
    from analysis_frame_litRedundant[OF lr] have "analysis_frame s s1" by simp
    from analysis_frame_trans[OF this Cons.IH[OF rest]] show ?thesis .
  qed
qed

lemma minimize_deep_subset:
  "minimize_deep t ls kept = Some (t', r') \<Longrightarrow> set r' \<subseteq> set kept \<union> set ls"
proof (induction ls arbitrary: t kept)
  case Nil
  then show ?case by auto
next
  case (Cons l ls)
  show ?case
  proof (cases "reason t (var l) = None")
    case True
    with Cons.prems have "minimize_deep t ls (kept @ [l]) = Some (t', r')" by simp
    from Cons.IH[OF this] show ?thesis by auto
  next
    case False
    with Cons.prems obtain red t1 where
      "minimize_deep t1 ls (if red then kept else kept @ [l]) = Some (t', r')"
      by (auto split: option.splits)
    from Cons.IH[OF this] show ?thesis by (auto split: if_splits)
  qed
qed

lemma analyze_Some:
  assumes "analyze s confl = Some (s', out_learnt, out_btlevel)"
  obtains s1 p out s3 shrunk where
    "analyze_loop s (Some confl) None 0 [] (length (trail s)) = Some (s1, p, out)"
    "analysis_frame s s3"
    "set shrunk \<subseteq> set (lit_neg p # out)" "shrunk \<noteq> []" "hd shrunk = lit_neg p"
    "(out_learnt, out_btlevel) = find_btlevel s3 shrunk"
    "analysis_frame s s'" "level s' = level s3"
proof -
  from assms obtain s1 p out where al: "analyze_loop s (Some confl) None 0 [] (length (trail s)) = Some (s1, p, out)"
    unfolding analyze_def by (auto split: option.splits)
  define s2 where "s2 = s1\<lparr>analyze_toclear := lit_neg p # out\<rparr>"
  have f1: "analysis_frame s s1" using analysis_frame_analyze_loop[OF al] by simp
  have f2: "analysis_frame s s2" unfolding s2_def
    by (rule analysis_frame_trans[OF f1 analysis_frame_toclear])
  define M where "M = (if ccmin_mode s2 = 2
          then map_option (\<lambda>(s', r). (s', lit_neg p # r)) (minimize_deep s2 out [])
          else if ccmin_mode s2 = 1 then Some (s2, lit_neg p # minimize_basic s2 out)
          else Some (s2, lit_neg p # out))"
  have eq: "(case M of None \<Rightarrow> None
             | Some (s3, shrunk) \<Rightarrow>
                 Some (s3\<lparr>seen := fold (\<lambda>l sn. sn(var l := 0)) (analyze_toclear s3) (seen s3)\<rparr>,
                       fst (find_btlevel s3 shrunk), snd (find_btlevel s3 shrunk)))
            = Some (s', out_learnt, out_btlevel)"
    using assms unfolding analyze_def M_def s2_def by (simp only: al option.case prod.case Let_def)
  then obtain s3 shrunk where mn0: "M = Some (s3, shrunk)" by (cases M) auto
  from eq mn0 have res: "s' = s3\<lparr>seen := fold (\<lambda>l sn. sn(var l := 0)) (analyze_toclear s3) (seen s3)\<rparr>"
             "(out_learnt, out_btlevel) = find_btlevel s3 shrunk"
    by (simp_all add: prod_eq_iff)
  note mn = mn0[unfolded M_def]
  have f3: "analysis_frame s s3 \<and> set shrunk \<subseteq> set (lit_neg p # out) \<and> shrunk \<noteq> [] \<and> hd shrunk = lit_neg p"
  proof (cases "ccmin_mode s2 = 2")
    case True
    with mn obtain r where md: "minimize_deep s2 out [] = Some (s3, r)" and sh: "shrunk = lit_neg p # r"
      by auto
    from analysis_frame_minimize_deep[OF md] f2 minimize_deep_subset[OF md] sh show ?thesis
      by (auto intro: analysis_frame_trans)
  next
    case False
    with mn f2 show ?thesis by (auto simp: minimize_basic_def split: if_splits)
  qed
  have f4: "analysis_frame s s'" unfolding res(1)
    using analysis_frame_trans[OF _ analysis_frame_seen] f3 by blast
  have lv: "level s' = level s3" unfolding res(1) by (rule ext) (simp add: level_def)
  show ?thesis using that[OF al _ _ _ _ res(2) f4 lv] f3 by blast
qed








section \<open>What unit propagation leaves unchanged\<close>

definition prop_frame :: "solver \<Rightarrow> solver \<Rightarrow> bool" where
  "prop_frame s s' =
     (ok s' = ok s \<and> trail_lim s' = trail_lim s \<and> assumptions s' = assumptions s
      \<and> conflict s' = conflict s \<and> clauses s' = clauses s \<and> learnts s' = learnts s
      \<and> model s' = model s \<and> solves s' = solves s \<and> starts s' = starts s
      \<and> length (ca s') = length (ca s)
      \<and> prefix (trail s) (trail s')
      \<and> (qhead s \<le> length (trail s) \<longrightarrow> qhead s' \<le> length (trail s'))
      \<and> ((\<forall>v. 0 \<le> level s v) \<longrightarrow> (\<forall>v. 0 \<le> level s' v)))"

lemma prop_frame_refl: "prop_frame s s"
  unfolding prop_frame_def by simp

lemma prop_frame_trans:
  assumes a: "prop_frame s s'" and b: "prop_frame s' s''"
  shows "prop_frame s s''"
proof -
  have p: "prefix (trail s) (trail s'')"
    using a b unfolding prop_frame_def by (meson prefix_order.trans)
  have q: "qhead s \<le> length (trail s) \<longrightarrow> qhead s'' \<le> length (trail s'')"
    using a b unfolding prop_frame_def by blast
  have l: "(\<forall>v. 0 \<le> level s v) \<longrightarrow> (\<forall>v. 0 \<le> level s'' v)"
    using a b unfolding prop_frame_def by blast
  have r: "ok s'' = ok s \<and> trail_lim s'' = trail_lim s \<and> assumptions s'' = assumptions s
      \<and> conflict s'' = conflict s \<and> clauses s'' = clauses s \<and> learnts s'' = learnts s
      \<and> model s'' = model s \<and> solves s'' = solves s \<and> starts s'' = starts s
      \<and> length (ca s'') = length (ca s)"
    using a b unfolding prop_frame_def by simp
  from p q l r show ?thesis unfolding prop_frame_def by blast
qed

lemma prop_frame_set_lits: "prop_frame s (set_lits s cr ls)"
  unfolding prop_frame_def set_lits_def by (simp add: level_def)

lemma prop_frame_watches: "prop_frame s (s\<lparr>watches := w\<rparr>)"
  unfolding prop_frame_def by (simp add: level_def)

lemma prop_frame_enqueue:
  assumes "uncheckedEnqueue s p from = Some s'"
  shows "prop_frame s s'"
proof -
  from assms have s': "s' = s\<lparr>assigns := (assigns s)(var p := lbool_of (\<not> sign p)),
                   vardata := (vardata s)(var p := (from, decisionLevel s)),
                   trail := trail s @ [p]\<rparr>"
    unfolding uncheckedEnqueue_def by (simp split: if_splits)
  have "0 \<le> decisionLevel s" unfolding decisionLevel_def by simp
  then have "(\<forall>v. 0 \<le> level s v) \<longrightarrow> (\<forall>v. 0 \<le> level s' v)"
    unfolding s' level_def by simp
  then show ?thesis unfolding prop_frame_def by (simp add: s')
qed

lemma prop_frame_qhead_top: "prop_frame s (s\<lparr>qhead := length (trail s)\<rparr>)"
  unfolding prop_frame_def by (simp add: level_def)

definition watch_result_ok :: "solver \<Rightarrow> watch_result \<Rightarrow> bool" where
  "watch_result_ok s r =
     (case r of
        Keep w' s' \<Rightarrow> prop_frame s s' \<and> qhead s' = qhead s
      | Moved s' \<Rightarrow> prop_frame s s' \<and> qhead s' = qhead s
      | Conflicting w' s' \<Rightarrow> prop_frame s s' \<and> qhead s' = length (trail s')
      | Undefined \<Rightarrow> True)"

lemma propagate_watcher_unfold:
  fixes s :: solver and w :: watcher and p :: lit
  assumes "value_lit s (blocker w) \<noteq> l_True"
  defines "c \<equiv> lits (ca s ! cref w)"
  defines "c1 \<equiv> (if c ! 0 = lit_neg p then c[0 := c ! 1, 1 := lit_neg p] else c)"
  defines "s1 \<equiv> set_lits s (cref w) c1"
  defines "w' \<equiv> Watcher (cref w) (c1 ! 0)"
  shows "propagate_watcher p w s =
     (if \<not> cref w < length (ca s) \<or> length c < 2 then Undefined
      else if c1 ! 1 \<noteq> lit_neg p then Undefined
      else if c1 ! 0 \<noteq> blocker w \<and> value_lit s1 (c1 ! 0) = l_True then Keep w' s1
      else (case find_nonfalse s1 (drop 2 c1) 2 of
              Some k \<Rightarrow>
                if lit_neg (c1[1 := c1 ! k, k := lit_neg p] ! 1) = p then Undefined
                else Moved ((set_lits s1 (cref w) (c1[1 := c1 ! k, k := lit_neg p]))
                       \<lparr>watches := (watches (set_lits s1 (cref w) (c1[1 := c1 ! k, k := lit_neg p])))
                          (lit_neg (c1[1 := c1 ! k, k := lit_neg p] ! 1) :=
                             watches (set_lits s1 (cref w) (c1[1 := c1 ! k, k := lit_neg p]))
                               (lit_neg (c1[1 := c1 ! k, k := lit_neg p] ! 1)) @ [w'])\<rparr>)
            | None \<Rightarrow>
                if value_lit s1 (c1 ! 0) = l_False
                then Conflicting w' (s1\<lparr>qhead := length (trail s1)\<rparr>)
                else (case uncheckedEnqueue s1 (c1 ! 0) (Some (cref w)) of
                        None \<Rightarrow> Undefined
                      | Some s2 \<Rightarrow> Keep w' s2)))"
  unfolding propagate_watcher_def c_def c1_def s1_def w'_def Let_def
  by (simp only: assms(1) if_False)

lemma propagate_watcher_ok: "watch_result_ok s (propagate_watcher p w s)"
proof (cases "value_lit s (blocker w) = l_True")
  case True
  then have "propagate_watcher p w s = Keep w s" unfolding propagate_watcher_def by simp
  then show ?thesis by (simp add: watch_result_ok_def prop_frame_refl)
next
  case nb: False
  define c where "c = lits (ca s ! cref w)"
  define c1 where "c1 = (if c ! 0 = lit_neg p then c[0 := c ! 1, 1 := lit_neg p] else c)"
  define s1 where "s1 = set_lits s (cref w) c1"
  define w' where "w' = Watcher (cref w) (c1 ! 0)"
  note u = propagate_watcher_unfold[OF nb, of p, folded c_def, folded c1_def, folded s1_def, folded w'_def]
  have f1: "prop_frame s s1" "qhead s1 = qhead s"
    unfolding s1_def by (rule prop_frame_set_lits) (simp add: set_lits_def)
  show ?thesis
  proof (cases "\<not> cref w < length (ca s) \<or> length c < 2")
    case True
    then have "propagate_watcher p w s = Undefined" unfolding u by (rule if_P)
    then show ?thesis by (simp add: watch_result_ok_def)
  next
    case ok1: False
    note u1 = u[unfolded if_not_P[OF ok1]]
    show ?thesis
    proof (cases "c1 ! 1 \<noteq> lit_neg p")
      case True
      then have "propagate_watcher p w s = Undefined" unfolding u1 by (rule if_P)
      then show ?thesis by (simp add: watch_result_ok_def)
    next
      case ok2: False
      note u2 = u1[unfolded if_not_P[OF ok2]]
      show ?thesis
      proof (cases "c1 ! 0 \<noteq> blocker w \<and> value_lit s1 (c1 ! 0) = l_True")
        case True
        then have "propagate_watcher p w s = Keep w' s1" unfolding u2 by (rule if_P)
        with f1 show ?thesis by (simp add: watch_result_ok_def)
      next
        case nt: False
        note u3 = u2[unfolded if_not_P[OF nt]]
        show ?thesis
        proof (cases "find_nonfalse s1 (drop 2 c1) 2")
          case (Some k)
          define s2 where "s2 = set_lits s1 (cref w) (c1[1 := c1 ! k, k := lit_neg p])"
          define nl where "nl = lit_neg (c1[1 := c1 ! k, k := lit_neg p] ! 1)"
          have f2: "prop_frame s (s2\<lparr>watches := (watches s2)(nl := watches s2 nl @ [w'])\<rparr>)"
            unfolding s2_def
            by (rule prop_frame_trans[OF prop_frame_trans[OF f1(1) prop_frame_set_lits] prop_frame_watches])
          have q2: "qhead (s2\<lparr>watches := (watches s2)(nl := watches s2 nl @ [w'])\<rparr>) = qhead s"
            unfolding s2_def using f1(2) by (simp add: set_lits_def)
          have "propagate_watcher p w s =
                  (if nl = p then Undefined
                   else Moved (s2\<lparr>watches := (watches s2)(nl := watches s2 nl @ [w'])\<rparr>))"
            unfolding u3 s2_def nl_def by (simp only: Some option.case)
          with f2 q2 show ?thesis by (cases "nl = p") (simp_all add: watch_result_ok_def)
        next
          case None
          note u4 = u3[unfolded None option.case]
          show ?thesis
          proof (cases "value_lit s1 (c1 ! 0) = l_False")
            case True
            then have "propagate_watcher p w s = Conflicting w' (s1\<lparr>qhead := length (trail s1)\<rparr>)"
              unfolding u4 by (rule if_P)
            moreover have "prop_frame s (s1\<lparr>qhead := length (trail s1)\<rparr>)"
              by (rule prop_frame_trans[OF f1(1) prop_frame_qhead_top])
            ultimately show ?thesis by (simp add: watch_result_ok_def)
          next
            case nf: False
            note u5 = u4[unfolded if_not_P[OF nf]]
            show ?thesis
            proof (cases "uncheckedEnqueue s1 (c1 ! 0) (Some (cref w))")
              case None
              then have "propagate_watcher p w s = Undefined" unfolding u5 by (simp only: option.case)
              then show ?thesis by (simp add: watch_result_ok_def)
            next
              case (Some s2)
              then have "propagate_watcher p w s = Keep w' s2" unfolding u5 by (simp only: option.case)
              moreover have "prop_frame s s2" by (rule prop_frame_trans[OF f1(1) prop_frame_enqueue[OF Some]])
              moreover have "qhead s2 = qhead s" using Some f1(2)
                by (auto simp: uncheckedEnqueue_def split: if_splits)
              ultimately show ?thesis by (simp add: watch_result_ok_def)
            qed
          qed
        qed
      qed
    qed
  qed
qed

lemma propagate_watcher_frame:
  "propagate_watcher p w s = Keep w' s' \<Longrightarrow> prop_frame s s' \<and> qhead s' = qhead s"
  "propagate_watcher p w s = Moved s' \<Longrightarrow> prop_frame s s' \<and> qhead s' = qhead s"
  "propagate_watcher p w s = Conflicting w' s' \<Longrightarrow> prop_frame s s' \<and> qhead s' = length (trail s')"
  using propagate_watcher_ok[of s p w] unfolding watch_result_ok_def by simp_all

lemma propagate_watchers_frame:
  "propagate_watchers p ws js s = Some (s', js', confl') \<Longrightarrow>
     prop_frame s s' \<and> (confl' = None \<longrightarrow> qhead s' = qhead s)
     \<and> (confl' \<noteq> None \<longrightarrow> qhead s' = length (trail s'))"
proof (induction ws arbitrary: js s)
  case Nil
  then show ?case by (simp add: prop_frame_refl)
next
  case (Cons w ws)
  show ?case
  proof (cases "propagate_watcher p w s")
    case (Keep w1 s1)
    with Cons.prems have "propagate_watchers p ws (js @ [w1]) s1 = Some (s', js', confl')" by simp
    from Cons.IH[OF this] propagate_watcher_frame(1)[OF Keep]
    have "prop_frame s1 s'" "prop_frame s s1" "qhead s1 = qhead s"
      "confl' = None \<longrightarrow> qhead s' = qhead s1" "confl' \<noteq> None \<longrightarrow> qhead s' = length (trail s')"
      by blast+
    with prop_frame_trans[OF this(2) this(1)] show ?thesis by simp
  next
    case (Moved s1)
    with Cons.prems have "propagate_watchers p ws js s1 = Some (s', js', confl')" by simp
    from Cons.IH[OF this] propagate_watcher_frame(2)[OF Moved]
    have "prop_frame s1 s'" "prop_frame s s1" "qhead s1 = qhead s"
      "confl' = None \<longrightarrow> qhead s' = qhead s1" "confl' \<noteq> None \<longrightarrow> qhead s' = length (trail s')"
      by blast+
    with prop_frame_trans[OF this(2) this(1)] show ?thesis by simp
  next
    case (Conflicting w1 s1)
    with Cons.prems have "s' = s1" "confl' = Some (cref w1)" by simp_all
    with propagate_watcher_frame(3)[OF Conflicting] show ?thesis by simp
  next
    case Undefined
    with Cons.prems show ?thesis by simp
  qed
qed

lemma prop_frame_lookup: "prop_frame s (lookup s p)"
  unfolding prop_frame_def lookup_def by (simp add: level_def)

lemma propagate_loop_frame:
  assumes "propagate_loop s confl n = Some r"
  shows "prop_frame s (fst r) \<and> (qhead s \<le> length (trail s) \<longrightarrow> qhead (fst r) = length (trail (fst r)))"
  using assms
proof (induction rule: propagate_loop.raw_induct[rotated 1, consumes 1])
  case (1 pl s confl n r)
  show ?case
  proof (cases "qhead s < length (trail s)")
    case False
    with 1(2) have "r = (s, confl, n)" by simp
    with False show ?thesis by (auto simp: prop_frame_refl)
  next
    case True
    define p where "p = trail s ! qhead s"
    define s1 where "s1 = lookup (s\<lparr>qhead := qhead s + 1\<rparr>) p"
    from 1(2) have body: "(case propagate_watchers p (watches s1 p) [] s1 of
                 None \<Rightarrow> None
               | Some (s2, js, confl') \<Rightarrow>
                   pl (s2\<lparr>watches := (watches s2)(p := js)\<rparr>)
                     (case confl' of None \<Rightarrow> confl | Some cr \<Rightarrow> Some cr) (n + 1)) = Some r"
      unfolding p_def s1_def Let_def by (simp only: True if_True)
    then obtain s2 js confl' where
      pw: "propagate_watchers p (watches s1 p) [] s1 = Some (s2, js, confl')"
      by (cases "propagate_watchers p (watches s1 p) [] s1") auto
    with body have rec: "pl (s2\<lparr>watches := (watches s2)(p := js)\<rparr>)
                  (case confl' of None \<Rightarrow> confl | Some cr \<Rightarrow> Some cr) (n + 1) = Some r"
      by simp
    have "prop_frame s (s\<lparr>qhead := qhead s + 1\<rparr>)"
      using True unfolding prop_frame_def by (simp add: level_def)
    then have f1: "prop_frame s s1" unfolding s1_def
      by (rule prop_frame_trans) (rule prop_frame_lookup)
    have q1: "qhead s1 \<le> length (trail s1)" "qhead s1 = qhead s + 1" "length (trail s1) = length (trail s)"
      using True unfolding s1_def lookup_def by simp_all
    note pf = propagate_watchers_frame[OF pw]
    define s3 where "s3 = s2\<lparr>watches := (watches s2)(p := js)\<rparr>"
    have f3: "prop_frame s s3" unfolding s3_def
      using prop_frame_trans[OF prop_frame_trans[OF f1 conjunct1[OF pf]] prop_frame_watches] .
    have q3: "qhead s3 \<le> length (trail s3)"
      using pf q1 unfolding s3_def prop_frame_def by auto
    from 1(1)[OF rec] q3 have "prop_frame s3 (fst r)" "qhead (fst r) = length (trail (fst r))"
      unfolding s3_def by blast+
    with prop_frame_trans[OF f3 this(1)] show ?thesis by simp
  qed
qed

lemma propagate_frame:
  assumes "propagate s = Some (confl, s')"
  shows "prop_frame s s'" "qhead s \<le> length (trail s) \<Longrightarrow> qhead s' = length (trail s')"
proof -
  from assms obtain s1 n where pl: "propagate_loop s None 0 = Some (s1, confl, n)"
    and s': "s' = s1\<lparr>simpDB_props := simpDB_props s1 - n\<rparr>"
    unfolding propagate_def by (auto split: option.splits)
  from propagate_loop_frame[OF pl] have a: "prop_frame s s1"
    "qhead s \<le> length (trail s) \<Longrightarrow> qhead s1 = length (trail s1)" by auto
  have "prop_frame s1 s'" unfolding s' prop_frame_def by (simp add: level_def)
  with a(1) show "prop_frame s s'" by (rule prop_frame_trans)
  show "qhead s \<le> length (trail s) \<Longrightarrow> qhead s' = length (trail s')"
    using a(2) unfolding s' by simp
qed

section \<open>The trail invariant of the search loop\<close>

definition stack_inv :: "solver \<Rightarrow> bool" where
  "stack_inv s =
     (qhead s \<le> length (trail s) \<and> sorted (trail_lim s)
      \<and> (\<forall>l \<in> set (trail_lim s). l \<le> length (trail s)))"

definition stack_same :: "solver \<Rightarrow> solver \<Rightarrow> bool" where
  "stack_same s s' =
     (trail s' = trail s \<and> trail_lim s' = trail_lim s \<and> qhead s' = qhead s \<and> ok s' = ok s
      \<and> assumptions s' = assumptions s \<and> conflict s' = conflict s \<and> model s' = model s
      \<and> solves s' = solves s \<and> starts s' = starts s)"

lemma stack_same_refl: "stack_same s s"
  unfolding stack_same_def by simp

lemma stack_same_trans: "stack_same s s' \<Longrightarrow> stack_same s' s'' \<Longrightarrow> stack_same s s''"
  unfolding stack_same_def by simp

lemma stack_same_inv: "stack_same s s' \<Longrightarrow> stack_inv s \<Longrightarrow> stack_inv s'"
  unfolding stack_same_def stack_inv_def by simp

lemma prop_frame_inv:
  assumes "prop_frame s s'" "stack_inv s"
  shows "stack_inv s'"
proof -
  from assms(1) have p: "prefix (trail s) (trail s')" and tl: "trail_lim s' = trail_lim s"
    and q: "qhead s \<le> length (trail s) \<longrightarrow> qhead s' \<le> length (trail s')"
    unfolding prop_frame_def by blast+
  from p have "length (trail s) \<le> length (trail s')" by (rule prefix_length_le)
  with assms(2) tl q show ?thesis unfolding stack_inv_def by fastforce
qed

lemma analysis_frame_same: "analysis_frame s s' \<Longrightarrow> stack_same s s'"
proof -
  assume "analysis_frame s s'"
  then have e: "s' = s\<lparr>seen := seen s', analyze_toclear := analyze_toclear s', activity := activity s',
             var_inc := var_inc s', cla_inc := cla_inc s', ca := ca s'\<rparr>"
    unfolding analysis_frame_def by blast
  show ?thesis unfolding stack_same_def by (subst e, simp)+
qed

definition cancel_frame :: "solver \<Rightarrow> solver \<Rightarrow> bool" where
  "cancel_frame s s' =
     (s' = s\<lparr>assigns := assigns s', polarity := polarity s', order_heap := order_heap s'\<rparr>)"

lemma cancel_frame_refl: "cancel_frame s s"
  unfolding cancel_frame_def by simp

lemma cancel_frame_trans:
  assumes "cancel_frame s s'" "cancel_frame s' s''"
  shows "cancel_frame s s''"
proof -
  from assms have a: "s' = s\<lparr>assigns := assigns s', polarity := polarity s', order_heap := order_heap s'\<rparr>"
    and b: "s'' = s'\<lparr>assigns := assigns s'', polarity := polarity s'', order_heap := order_heap s''\<rparr>"
    unfolding cancel_frame_def by blast+
  have "s'' = s\<lparr>assigns := assigns s'', polarity := polarity s'', order_heap := order_heap s''\<rparr>"
    by (subst b, subst a) simp
  then show ?thesis unfolding cancel_frame_def .
qed

lemma cancel_frame_cancel_at: "cancel_frame s (cancel_at c s)"
  unfolding cancel_frame_def cancel_at_def insertVarOrder_def by (simp add: Let_def)

lemma cancel_frame_fold: "cancel_frame s (fold cancel_at cs s)"
proof (induction cs arbitrary: s)
  case Nil show ?case by (simp add: cancel_frame_refl)
next
  case (Cons c cs)
  from cancel_frame_trans[OF cancel_frame_cancel_at Cons.IH] show ?case by simp
qed

lemma cancelUntil_unfold:
  assumes "cancelUntil s lev = Some s'"
  shows "\<not> decisionLevel s > lev \<Longrightarrow> s' = s"
    and "decisionLevel s > lev \<Longrightarrow>
           0 \<le> lev \<and> trail s' = take (trail_lim s ! nat lev) (trail s)
           \<and> trail_lim s' = take (nat lev) (trail_lim s) \<and> qhead s' = trail_lim s ! nat lev
           \<and> cflr s' = None"
    and "ok s' = ok s" "assumptions s' = assumptions s" "conflict s' = conflict s" "model s' = model s"
      "solves s' = solves s" "starts s' = starts s" "vardata s' = vardata s" "ca s' = ca s"
      "clauses s' = clauses s" "learnts s' = learnts s" "watches s' = watches s"
proof -
  define t where "t = fold cancel_at (rev [trail_lim s ! nat lev ..< length (trail s)]) (s\<lparr>cflr := None\<rparr>)"
  have "cancel_frame (s\<lparr>cflr := None\<rparr>) t" unfolding t_def by (rule cancel_frame_fold)
  then have e: "t = s\<lparr>cflr := None, assigns := assigns t, polarity := polarity t, order_heap := order_heap t\<rparr>"
    unfolding cancel_frame_def by simp
  have tf: "trail t = trail s" "trail_lim t = trail_lim s" "ok t = ok s" "assumptions t = assumptions s"
    "conflict t = conflict s" "model t = model s" "solves t = solves s" "starts t = starts s"
    "vardata t = vardata s" "ca t = ca s" "clauses t = clauses s" "learnts t = learnts s"
    "watches t = watches s"
    by (subst e, simp)+
  have s': "decisionLevel s > lev \<Longrightarrow> 0 \<le> lev \<and>
      s' = t\<lparr>qhead := trail_lim s ! nat lev, trail := take (trail_lim s ! nat lev) (trail t),
               trail_lim := take (nat lev) (trail_lim t)\<rparr>"
    using assms unfolding cancelUntil_def t_def by (simp add: Let_def split: if_splits)
  show "\<not> decisionLevel s > lev \<Longrightarrow> s' = s" using assms unfolding cancelUntil_def by simp
  show "decisionLevel s > lev \<Longrightarrow>
           0 \<le> lev \<and> trail s' = take (trail_lim s ! nat lev) (trail s)
           \<and> trail_lim s' = take (nat lev) (trail_lim s) \<and> qhead s' = trail_lim s ! nat lev
           \<and> cflr s' = None"
  proof -
    assume d: "decisionLevel s > lev"
    from s'[OF d] have "0 \<le> lev" and e': "s' = t\<lparr>qhead := trail_lim s ! nat lev, trail := take (trail_lim s ! nat lev) (trail t),
               trail_lim := take (nat lev) (trail_lim t)\<rparr>" by blast+
    have "cflr t = None" by (subst e) simp
    with \<open>0 \<le> lev\<close> tf show ?thesis by (simp add: e')
  qed
  have gen: "f s' = f s" if "\<And>q tr tl. f (t\<lparr>qhead := q, trail := tr, trail_lim := tl\<rparr>) = f t" "f t = f s" for f :: "solver \<Rightarrow> 'x"
  proof (cases "decisionLevel s > lev")
    case True
    from s'[OF True] that show ?thesis by metis
  next
    case False
    with assms have "s' = s" unfolding cancelUntil_def by simp
    then show ?thesis by simp
  qed
  show "ok s' = ok s" by (rule gen) (simp_all add: tf)
  show "assumptions s' = assumptions s" by (rule gen) (simp_all add: tf)
  show "conflict s' = conflict s" by (rule gen) (simp_all add: tf)
  show "model s' = model s" by (rule gen) (simp_all add: tf)
  show "solves s' = solves s" by (rule gen) (simp_all add: tf)
  show "starts s' = starts s" by (rule gen) (simp_all add: tf)
  show "vardata s' = vardata s" by (rule gen) (simp_all add: tf)
  show "ca s' = ca s" by (rule gen) (simp_all add: tf)
  show "clauses s' = clauses s" by (rule gen) (simp_all add: tf)
  show "learnts s' = learnts s" by (rule gen) (simp_all add: tf)
  show "watches s' = watches s" by (rule gen) (simp_all add: tf)
qed

lemma cancelUntil_inv:
  assumes c: "cancelUntil s lev = Some s'" and inv: "stack_inv s"
  shows "stack_inv s'"
proof (cases "decisionLevel s > lev")
  case False
  with cancelUntil_unfold(1)[OF c] inv show ?thesis by simp
next
  case True
  from cancelUntil_unfold(2)[OF c True] have lev: "0 \<le> lev"
    and t: "trail s' = take (trail_lim s ! nat lev) (trail s)"
    and tl: "trail_lim s' = take (nat lev) (trail_lim s)" and q: "qhead s' = trail_lim s ! nat lev"
    by blast+
  from True lev have n: "nat lev < length (trail_lim s)" unfolding decisionLevel_def by simp
  define lim where "lim = trail_lim s ! nat lev"
  from inv n have limle: "lim \<le> length (trail s)" unfolding stack_inv_def lim_def
    by (meson nth_mem)
  from inv have srt: "sorted (trail_lim s)" unfolding stack_inv_def by simp
  have len: "length (trail s') = lim" unfolding t lim_def[symmetric] using limle by simp
  have "\<forall>l \<in> set (take (nat lev) (trail_lim s)). l \<le> lim"
  proof
    fix l assume "l \<in> set (take (nat lev) (trail_lim s))"
    then obtain k where k: "k < nat lev" "l = trail_lim s ! k"
      using n by (auto simp: in_set_conv_nth)
    with srt n show "l \<le> lim" unfolding lim_def by (simp add: sorted_nth_mono)
  qed
  moreover have "sorted (take (nat lev) (trail_lim s))" using srt by (rule sorted_wrt_take)
  ultimately show ?thesis unfolding stack_inv_def tl q len lim_def[symmetric] by simp
qed

lemma newDecisionLevel_inv: "stack_inv s \<Longrightarrow> stack_inv (newDecisionLevel s)"
  unfolding stack_inv_def newDecisionLevel_def by (auto simp: sorted_append)

lemma uncheckedEnqueue_inv: "uncheckedEnqueue s p from = Some s' \<Longrightarrow> stack_inv s \<Longrightarrow> stack_inv s'"
  using prop_frame_inv[OF prop_frame_enqueue] by blast

lemma insort_by_length: "length (insort_by lt x xs) = Suc (length xs)"
  by (induction xs) simp_all

lemma sort_by_length: "length (sort_by lt xs) = length xs"
  unfolding sort_by_def by (induction xs) (simp_all add: insort_by_length)

lemma stack_same_attach: "attachClause s cr = Some s' \<Longrightarrow> stack_same s s'"
  unfolding attachClause_def stack_same_def by (auto simp: Let_def split: if_splits)

lemma stack_same_detach: "detachClause s cr = Some s' \<Longrightarrow> stack_same s s'"
  unfolding detachClause_def stack_same_def smudge_def by (auto simp: Let_def split: if_splits)

lemma stack_same_remove: "removeClause s cr = Some s' \<Longrightarrow> stack_same s s'"
proof -
  assume a: "removeClause s cr = Some s'"
  then obtain s1 where d: "detachClause s cr = Some s1" unfolding removeClause_def
    by (auto split: option.splits)
  have "stack_same s1 s'" using a d unfolding removeClause_def stack_same_def
    by (auto simp: Let_def split: if_splits)
  with stack_same_detach[OF d] show ?thesis by (rule stack_same_trans)
qed

lemma stack_same_alloc: "stack_same s (snd (ca_alloc s ps l))"
  unfolding ca_alloc_def stack_same_def by simp

lemma stack_same_claBump: "stack_same s (claBumpActivity cr s)"
  by (rule analysis_frame_same[OF analysis_frame_claBump])

lemma stack_same_varBump: "stack_same s (varBumpActivity v s)"
  by (rule analysis_frame_same[OF analysis_frame_varBump])

lemma stack_same_fold_varBump: "stack_same s (fold (\<lambda>l. varBumpActivity (var l)) ls s)"
proof (induction ls arbitrary: s)
  case Nil show ?case by (simp add: stack_same_refl)
next
  case (Cons l ls)
  from stack_same_trans[OF stack_same_varBump Cons.IH] show ?case by simp
qed

lemma stack_same_field: "stack_same s (s\<lparr>clauses := x\<rparr>)" "stack_same s (s\<lparr>learnts := y\<rparr>)"
  unfolding stack_same_def by simp_all

lemma stack_same_add_original:
  assumes "add_original s clause bump = Some (cr, s')"
  shows "stack_same s s'"
proof -
  define s1 where "s1 = snd (ca_alloc s clause False)"
  define s2 where "s2 = (if bump then fold (\<lambda>l. varBumpActivity (var l)) clause s1 else s1)"
  have cr: "fst (ca_alloc s clause False) = length (ca s)" unfolding ca_alloc_def by simp
  from assms have at: "attachClause (s2\<lparr>clauses := clauses s2 @ [length (ca s)]\<rparr>) (length (ca s)) = Some s'"
    unfolding add_original_def s2_def s1_def by (auto simp: ca_alloc_def Let_def)
  have "stack_same s s1" unfolding s1_def by (rule stack_same_alloc)
  moreover have "stack_same s1 s2" unfolding s2_def
    by (simp add: stack_same_refl stack_same_fold_varBump)
  moreover have "stack_same s2 (s2\<lparr>clauses := clauses s2 @ [length (ca s)]\<rparr>)" by (rule stack_same_field)
  moreover note stack_same_attach[OF at]
  ultimately show ?thesis by (meson stack_same_trans)
qed

lemma analyze_same: "analyze s confl = Some (s', ol, bt) \<Longrightarrow> stack_same s s'"
  by (rule analyze_Some) (auto intro: analysis_frame_same)

definition strict_inv :: "solver \<Rightarrow> bool" where
  "strict_inv s =
     (sorted_wrt (<) (trail_lim s) \<and> (\<forall>l \<in> set (trail_lim s). l < length (trail s)))"

lemma stack_same_strict: "stack_same s s' \<Longrightarrow> strict_inv s \<Longrightarrow> strict_inv s'"
  unfolding stack_same_def strict_inv_def by simp

lemma prop_frame_strict:
  assumes "prop_frame s s'" "strict_inv s"
  shows "strict_inv s'"
proof -
  from assms(1) have p: "prefix (trail s) (trail s')" and tl: "trail_lim s' = trail_lim s"
    unfolding prop_frame_def by blast+
  from p have "length (trail s) \<le> length (trail s')" by (rule prefix_length_le)
  with assms(2) tl show ?thesis unfolding strict_inv_def by fastforce
qed

lemma cancelUntil_strict:
  assumes c: "cancelUntil s lev = Some s'" and inv: "strict_inv s"
  shows "strict_inv s'"
proof (cases "decisionLevel s > lev")
  case False
  with cancelUntil_unfold(1)[OF c] inv show ?thesis by simp
next
  case True
  from cancelUntil_unfold(2)[OF c True] have lev: "0 \<le> lev"
    and t: "trail s' = take (trail_lim s ! nat lev) (trail s)"
    and tl: "trail_lim s' = take (nat lev) (trail_lim s)"
    by blast+
  from True lev have n: "nat lev < length (trail_lim s)" unfolding decisionLevel_def by simp
  define lim where "lim = trail_lim s ! nat lev"
  from inv n have limle: "lim \<le> length (trail s)" unfolding strict_inv_def lim_def
    by (meson nth_mem less_imp_le)
  from inv have srt: "sorted_wrt (<) (trail_lim s)" unfolding strict_inv_def by simp
  have len: "length (trail s') = lim" unfolding t lim_def[symmetric] using limle by simp
  have "\<forall>l \<in> set (take (nat lev) (trail_lim s)). l < lim"
  proof
    fix l assume "l \<in> set (take (nat lev) (trail_lim s))"
    then obtain k where k: "k < nat lev" "l = trail_lim s ! k"
      using n by (auto simp: in_set_conv_nth)
    with srt n show "l < lim" unfolding lim_def by (simp add: sorted_wrt_nth_less)
  qed
  moreover have "sorted_wrt (<) (take (nat lev) (trail_lim s))" using srt by (rule sorted_wrt_take)
  ultimately show ?thesis unfolding strict_inv_def tl len lim_def[symmetric] by simp
qed

lemma decision_strict:
  assumes "uncheckedEnqueue (newDecisionLevel s) p from = Some s'" "strict_inv s"
  shows "strict_inv s'"
proof -
  from assms(1) have "trail s' = trail s @ [p]" "trail_lim s' = trail_lim s @ [length (trail s)]"
    unfolding uncheckedEnqueue_def newDecisionLevel_def by (auto split: if_splits)
  with assms(2) show ?thesis unfolding strict_inv_def by (auto simp: sorted_wrt_append less_Suc_eq)
qed

definition step_ok :: "solver \<Rightarrow> solver \<Rightarrow> bool" where
  "step_ok s s' = ((stack_inv s \<longrightarrow> stack_inv s') \<and> (strict_inv s \<longrightarrow> strict_inv s') \<and> ok s' = ok s
      \<and> assumptions s' = assumptions s \<and> conflict s' = conflict s \<and> model s' = model s
      \<and> solves s' = solves s \<and> starts s' = starts s)"

lemma step_ok_refl: "step_ok s s"
  unfolding step_ok_def by simp

lemma step_ok_trans: "step_ok s s' \<Longrightarrow> step_ok s' s'' \<Longrightarrow> step_ok s s''"
  unfolding step_ok_def by simp

lemma step_ok_same: "stack_same s s' \<Longrightarrow> step_ok s s'"
  unfolding step_ok_def using stack_same_inv[of s s'] stack_same_strict[of s s']
  by (simp add: stack_same_def)

lemma step_ok_prop: "prop_frame s s' \<Longrightarrow> step_ok s s'"
  unfolding step_ok_def using prop_frame_inv[of s s'] prop_frame_strict[of s s']
  by (simp add: prop_frame_def)

lemma step_ok_cancel: "cancelUntil s lev = Some s' \<Longrightarrow> step_ok s s'"
  unfolding step_ok_def
  using cancelUntil_inv[of s lev s'] cancelUntil_strict[of s lev s'] cancelUntil_unfold(3-8)[of s lev s']
  by simp

lemma step_ok_enqueue: "uncheckedEnqueue s p from = Some s' \<Longrightarrow> step_ok s s'"
  by (rule step_ok_prop[OF prop_frame_enqueue])

lemma step_ok_learn:
  assumes "learn s lc = Some s'"
  shows "step_ok s s'"
proof (cases "length lc = 1")
  case True
  with assms have e: "uncheckedEnqueue s (lc ! 0) None = Some s'" unfolding learn_def by simp
  then show ?thesis by (rule step_ok_enqueue)
next
  case False
  define s1 where "s1 = snd (ca_alloc s lc True)"
  define cr where "cr = length (ca s)"
  from assms False obtain s2 where at: "attachClause (s1\<lparr>learnts := learnts s1 @ [cr]\<rparr>) cr = Some s2"
    and e: "uncheckedEnqueue (claBumpActivity cr s2) (lc ! 0) (Some cr) = Some s'"
    unfolding learn_def s1_def cr_def by (auto simp: ca_alloc_def split: option.splits)
  have "stack_same s (claBumpActivity cr s2)"
    using stack_same_alloc[of s lc True, folded s1_def] stack_same_field(2)[of s1]
      stack_same_attach[OF at] stack_same_claBump[of s2 cr]
    by (meson stack_same_trans)
  from step_ok_trans[OF step_ok_same[OF this] step_ok_enqueue[OF e]] show ?thesis .
qed

lemma step_ok_ingest_unit:
  assumes "ingest_unit s c = Some (b, s')"
  shows "step_ok s s'" "b"
proof -
  from assms obtain s1 where c: "cancelUntil s 0 = Some s1"
    and e: "uncheckedEnqueue s1 (c ! 0) None = Some s'" and b: "b"
    unfolding ingest_unit_def by (auto split: option.splits)
  from step_ok_trans[OF step_ok_cancel[OF c] step_ok_enqueue[OF e]] show "step_ok s s'" .
  from b show "b" .
qed

lemma step_ok_ingest_asserting:
  assumes "ingest_asserting s c lev = Some (b, s')"
  shows "step_ok s s'" "b"
proof -
  from assms obtain s1 cr s2 where c: "cancelUntil s lev = Some s1"
    and a: "add_original s1 c True = Some (cr, s2)"
    and e: "uncheckedEnqueue s2 (c ! 0) (Some cr) = Some s'" and b: "b"
    unfolding ingest_asserting_def by (auto split: option.splits)
  from step_ok_trans[OF step_ok_trans[OF step_ok_cancel[OF c] step_ok_same[OF stack_same_add_original[OF a]]]
      step_ok_enqueue[OF e]]
  show "step_ok s s'" .
  from b show "b" .
qed

lemma step_ok_ingest_conflicting:
  assumes "ingest_conflicting s c lev = Some (b, s')"
  shows "step_ok s s'" "b"
proof -
  from assms obtain s1 cr s2 s3 lc bt s4 where c: "cancelUntil s lev = Some s1"
    and a: "add_original s1 c False = Some (cr, s2)"
    and an: "analyze s2 cr = Some (s3, lc, bt)"
    and c2: "cancelUntil s3 bt = Some s4"
    and l: "learn s4 lc = Some s'" and b: "b"
    unfolding ingest_conflicting_def by (auto split: option.splits)
  have "step_ok s s2"
    by (rule step_ok_trans[OF step_ok_cancel[OF c] step_ok_same[OF stack_same_add_original[OF a]]])
  moreover have "step_ok s2 s4"
    by (rule step_ok_trans[OF step_ok_same[OF analyze_same[OF an]] step_ok_cancel[OF c2]])
  ultimately have "step_ok s s4" by (rule step_ok_trans)
  from step_ok_trans[OF this step_ok_learn[OF l]] show "step_ok s s'" .
  from b show "b" .
qed

lemma addClauseDuringSearch_cases:
  assumes "addClauseDuringSearch s cl = Some (b, s')"
  defines "clause \<equiv> sort_by (lit_order s) cl"
  defines "nu \<equiv> num_unassigned s clause"
  defines "h \<equiv> level s (var (clause ! nu))"
  obtains (empty) "cl = []" "\<not> b" "s' = s"
  | (all_undef) "cl \<noteq> []" "nu = 1" "length clause = 1" "ingest_unit s clause = Some (b, s')"
  | (root_false) "cl \<noteq> []" "nu = 0" "nu \<noteq> length clause" "h = 0" "\<not> b" "s' = s"
  | (asserting) "cl \<noteq> []" "nu = 1" "nu \<noteq> length clause" "ingest_asserting s clause h = Some (b, s')"
  | (conflicting) "cl \<noteq> []" "nu = 0" "nu \<noteq> length clause" "h \<noteq> 0" "num_highest_dl s clause nu h > 1"
      "ingest_conflicting s clause h = Some (b, s')"
  | (backjump) "cl \<noteq> []" "nu = 0" "h \<noteq> 0" "num_highest_dl s clause nu h = 1" "length clause > 1"
      "ingest_asserting s clause (level s (var (clause ! 1))) = Some (b, s')"
  | (single) "cl \<noteq> []" "nu = 0" "h \<noteq> 0" "length clause = 1" "ingest_unit s clause = Some (b, s')"
proof (cases "cl = []")
  case True
  with assms(1) have "\<not> b" "s' = s" unfolding addClauseDuringSearch_def by simp_all
  with True show ?thesis by (rule empty)
next
  case ne: False
  then have l0: "\<not> length cl = 0" by simp
  note u0 = assms(1)[unfolded addClauseDuringSearch_def if_not_P[OF l0] Let_def,
      folded clause_def, folded nu_def, folded h_def]
  show ?thesis
  proof (cases "nu \<le> 1")
    case False
    from u0[unfolded if_P[OF False]] show ?thesis by simp
  next
    case le: True
    then have nn: "\<not> \<not> nu \<le> 1" by simp
    note u1 = u0[unfolded if_not_P[OF nn]]
    show ?thesis
    proof (cases "nu = length clause")
      case True
      have "ingest_unit s clause = Some (b, s')" by (rule u1[unfolded if_P[OF True]])
      moreover have "nu = 1"
      proof -
        have "length clause = length cl" unfolding clause_def by (rule sort_by_length)
        with ne True le show ?thesis by (cases cl) auto
      qed
      ultimately show ?thesis using True ne by (intro all_undef) simp_all
    next
      case nl: False
      note u2 = u1[unfolded if_not_P[OF nl]]
      show ?thesis
      proof (cases "h = 0 \<and> nu = 0")
        case True
        from u2[unfolded if_P[OF True]] have "\<not> b" "s' = s" by simp_all
        with True nl ne show ?thesis by (intro root_false) simp_all
      next
        case nr: False
        note u3 = u2[unfolded if_not_P[OF nr]]
        show ?thesis
        proof (cases "nu = 1")
          case True
          have "ingest_asserting s clause h = Some (b, s')" by (rule u3[unfolded if_P[OF True]])
          with True nl ne show ?thesis by (intro asserting) simp_all
        next
          case n1: False
          with le have z: "nu = 0" by simp
          with nr have hn: "h \<noteq> 0" by simp
          note u4 = u3[unfolded if_not_P[OF n1]]
          show ?thesis
          proof (cases "num_highest_dl s clause nu h > 1")
            case True
            have "ingest_conflicting s clause h = Some (b, s')" by (rule u4[unfolded if_P[OF True]])
            with True z nl hn ne show ?thesis by (intro conflicting) simp_all
          next
            case m1: False
            then have m: "num_highest_dl s clause nu h = 1" unfolding num_highest_dl_def by simp
            note u5 = u4[unfolded if_not_P[OF m1]]
            show ?thesis
            proof (cases "length clause > 1")
              case True
              have "ingest_asserting s clause (level s (var (clause ! 1))) = Some (b, s')"
                by (rule u5[unfolded if_P[OF True]])
              with True z hn m ne show ?thesis by (intro backjump) simp_all
            next
              case False
              have "ingest_unit s clause = Some (b, s')" by (rule u5[unfolded if_not_P[OF False]])
              moreover have "length clause = 1" using False nl z by (cases clause) simp_all
              ultimately show ?thesis using z hn ne by (intro single) simp_all
            qed
          qed
        qed
      qed
    qed
  qed
qed

lemma step_ok_addClauseDuringSearch:
  assumes "addClauseDuringSearch s cl = Some (b, s')"
  shows "step_ok s s'"
  using assms
  by (rule addClauseDuringSearch_cases)
     (simp_all add: step_ok_refl step_ok_ingest_unit(1) step_ok_ingest_asserting(1)
        step_ok_ingest_conflicting(1))

section \<open>The blocking clause of the enumeration\<close>

text \<open>
  C1. The blocking clause that \<open>run_solver_enumerate\<close> hands to \<open>addClause\<close> for a model
  over \<open>m\<close> edge variables has \<open>2 * m\<close> literals: the \<open>m\<close> padding literals that
  \<^verbatim>\<open>vec<Lit> blocking_clause(m)\<close> starts with, followed by the \<open>m\<close> negated model literals
  that the loop pushes. For one edge variable that the model sets to true, it is the
  clause \<open>x0 \<or> \<not>x0\<close>, not the clause \<open>\<not>x0\<close>.
\<close>

theorem enumerate_blocking_clause_padded:
  "enum_blocking_clause pad m mdl
     = replicate m pad @ map (\<lambda>v. mkLit v (mdl ! v = l_True)) [0 ..< m]
   \<and> length (enum_blocking_clause pad m mdl) = 2 * m
   \<and> enum_blocking_clause (Lit 0 False) 1 [l_True] = [Lit 0 False, Lit 0 True]"
proof -
  have "fold (\<lambda>v bc. bc @ [mkLit v (mdl ! v = l_True)]) xs acc
          = acc @ map (\<lambda>v. mkLit v (mdl ! v = l_True)) xs" for xs acc
    by (induction xs arbitrary: acc) simp_all
  then have shape: "enum_blocking_clause pad m mdl
     = replicate m pad @ map (\<lambda>v. mkLit v (mdl ! v = l_True)) [0 ..< m]"
    unfolding enum_blocking_clause_def vec_sized_def by simp
  have "enum_blocking_clause (Lit 0 False) 1 [l_True] = [Lit 0 False, Lit 0 True]"
    unfolding enum_blocking_clause_def vec_sized_def mkLit_def by simp
  with shape show ?thesis by simp
qed

text \<open>
  The effect on a graph with two vertices, that is one edge variable, and no clause: the
  formula has two models, and the enumeration reports five when it is allowed five. The
  first model sets the variable to false and is blocked by the unit clause \<open>x0\<close>; the
  second sets it to true, its blocking clause is a tautology that \<open>addClause_\<close> drops, and
  the same model is found again.
\<close>

definition one_edge_env :: env where
  "one_edge_env = plain_env\<lparr>vertices := 2\<rparr>"

definition one_edge_solver :: solver where
  "one_edge_solver = snd (newVar Solver_init)"

lemma one_edge_first_model:
  "map_option (\<lambda>(r, s). (r, model s)) (solve_impl one_edge_env one_edge_solver) = Some (l_True, [l_False])"
  by code_simp

lemma one_edge_enumeration_repeats:
  "map_option fst (run_solver_enumerate one_edge_env False 5 one_edge_solver) = Some (5, LIMIT)"
  by code_simp

section \<open>Reduction of the learnt clause database\<close>

text \<open>
  \<open>deletable s ls i\<close> is the condition under which the clause at position \<open>i\<close> of the sorted
  learnt list \<open>ls\<close> is to be deleted, read in the state \<open>s\<close> in which \<open>reduceDB\<close> is called.
  \<open>reduce_frame\<close> lists what the deletion of an unlocked clause leaves unchanged.
\<close>

definition deletable :: "solver \<Rightarrow> cref list \<Rightarrow> nat \<Rightarrow> bool" where
  "deletable s ls i =
     (length (lits (ca s ! (ls ! i))) > 2 \<and> \<not> locked s (ls ! i) \<and>
      (i < length ls div 2 \<or> cl_activity (ca s ! (ls ! i)) < cla_inc s / real (length ls)))"

definition reduce_frame :: "solver \<Rightarrow> solver \<Rightarrow> bool" where
  "reduce_frame s s' =
     (assigns s' = assigns s \<and> vardata s' = vardata s \<and> cla_inc s' = cla_inc s \<and>
      length (ca s') = length (ca s) \<and>
      map lits (ca s') = map lits (ca s) \<and> map cl_activity (ca s') = map cl_activity (ca s))"

lemma reduce_frame_refl: "reduce_frame s s"
  unfolding reduce_frame_def by simp

lemma reduce_frame_trans: "reduce_frame s s' \<Longrightarrow> reduce_frame s' s'' \<Longrightarrow> reduce_frame s s''"
  unfolding reduce_frame_def by simp

lemma reduce_frame_nth:
  assumes "reduce_frame s s'" "cr < length (ca s)"
  shows "lits (ca s' ! cr) = lits (ca s ! cr)" "cl_activity (ca s' ! cr) = cl_activity (ca s ! cr)"
proof -
  from assms have "map lits (ca s') ! cr = map lits (ca s) ! cr" "cr < length (ca s')"
    "map cl_activity (ca s') ! cr = map cl_activity (ca s) ! cr"
    unfolding reduce_frame_def by simp_all
  with assms(2) show "lits (ca s' ! cr) = lits (ca s ! cr)" "cl_activity (ca s' ! cr) = cl_activity (ca s ! cr)"
    by simp_all
qed

lemma reduce_frame_locked:
  assumes "reduce_frame s s'" "cr < length (ca s)"
  shows "locked s' cr = locked s cr"
  using reduce_frame_nth(1)[OF assms] assms(1)
  unfolding locked_def reduce_frame_def value_lit_def reason_def by simp

lemma removeClause_unlocked:
  assumes "cr < length (ca s)" "length (lits (ca s ! cr)) > 1" "\<not> locked s cr"
  shows "\<exists>s'. removeClause s cr = Some s' \<and> reduce_frame s s' \<and> mark (ca s' ! cr) = 1
            \<and> (\<forall>x. x \<noteq> cr \<longrightarrow> mark (ca s' ! x) = mark (ca s ! x))"
proof -
  define s2 where "s2 = smudge (lit_neg (lits (ca s ! cr) ! 1)) (smudge (lit_neg (lits (ca s ! cr) ! 0)) s)"
  define s1 where "s1 = (if learnt (ca s ! cr)
                       then s2\<lparr>num_learnts := num_learnts s2 - 1,
                               learnts_literals := learnts_literals s2 - int (length (lits (ca s ! cr)))\<rparr>
                       else s2\<lparr>num_clauses := num_clauses s2 - 1,
                               clauses_literals := clauses_literals s2 - int (length (lits (ca s ! cr)))\<rparr>)"
  have d: "detachClause s cr = Some s1"
    using assms(1,2) unfolding detachClause_def s1_def s2_def Let_def by simp
  have f: "ca s1 = ca s" "assigns s1 = assigns s" "vardata s1 = vardata s" "cla_inc s1 = cla_inc s"
    unfolding s1_def s2_def smudge_def by simp_all
  have nl: "\<not> locked s1 cr" using assms(3) f unfolding locked_def value_lit_def reason_def by simp
  have r: "removeClause s cr = Some (s1\<lparr>ca := (ca s1)[cr := (ca s1 ! cr)\<lparr>mark := 1\<rparr>]\<rparr>)"
    unfolding removeClause_def d using nl by simp
  show ?thesis
    unfolding r using f assms(1)
    by (simp add: reduce_frame_def map_update nth_list_update list_update_same_conv)
qed

lemma reduceDB_fold:
  assumes "\<forall>i \<in> set js. i < length ls \<and> ls ! i < length (ca s)"
    and "reduce_frame s s0" and "el = cla_inc s / real (length ls)"
  shows "\<exists>s1. fold_option (reduceDB_at el ls) js (s0, kept)
                = Some (s1, kept @ map ((!) ls) (filter (\<lambda>i. \<not> deletable s ls i) js))
             \<and> reduce_frame s s1
             \<and> (\<forall>x. mark (ca s1 ! x) =
                     (if \<exists>i \<in> set js. ls ! i = x \<and> deletable s ls i then 1 else mark (ca s0 ! x)))"
  using assms
proof (induction js arbitrary: s0 kept)
  case Nil
  then show ?case by simp
next
  case (Cons j js)
  have j: "j < length ls" "ls ! j < length (ca s)" using Cons.prems(1) by simp_all
  have rest: "\<forall>i \<in> set js. i < length ls \<and> ls ! i < length (ca s)" using Cons.prems(1) by simp
  have fr: "reduce_frame s s0" by (rule Cons.prems(2))
  have l0: "ls ! j < length (ca s0)" using fr j unfolding reduce_frame_def by simp
  have cond: "(length (lits (ca s0 ! (ls ! j))) > 2 \<and> \<not> locked s0 (ls ! j) \<and>
              (int j < int (length ls) div 2 \<or> cl_activity (ca s0 ! (ls ! j)) < el)) = deletable s ls j"
  proof -
    have e: "(int j < int (length ls) div 2) = (j < length ls div 2)" by presburger
    show ?thesis
      unfolding deletable_def reduce_frame_nth[OF fr j(2)] reduce_frame_locked[OF fr j(2)] Cons.prems(3) e
      by (rule refl)
  qed
  show ?case
  proof (cases "deletable s ls j")
    case True
    then have "length (lits (ca s0 ! (ls ! j))) > 1" "\<not> locked s0 (ls ! j)"
      using cond by auto
    from removeClause_unlocked[OF l0 this] obtain s' where
      r: "removeClause s0 (ls ! j) = Some s'" and f': "reduce_frame s0 s'"
      and m1: "mark (ca s' ! (ls ! j)) = 1"
      and m2: "\<forall>x. x \<noteq> ls ! j \<longrightarrow> mark (ca s' ! x) = mark (ca s0 ! x)" by blast
    have step: "reduceDB_at el ls j (s0, kept) = Some (s', kept)"
      unfolding reduceDB_at_def using cond True r by (simp add: Let_def)
    from Cons.IH[OF rest reduce_frame_trans[OF fr f'] Cons.prems(3), of kept] obtain s1 where
      ih: "fold_option (reduceDB_at el ls) js (s', kept)
                = Some (s1, kept @ map ((!) ls) (filter (\<lambda>i. \<not> deletable s ls i) js))"
       "reduce_frame s s1"
       "\<forall>x. mark (ca s1 ! x) =
                     (if \<exists>i \<in> set js. ls ! i = x \<and> deletable s ls i then 1 else mark (ca s' ! x))"
      by blast
    have "\<forall>x. mark (ca s1 ! x) =
              (if \<exists>i \<in> set (j # js). ls ! i = x \<and> deletable s ls i then 1 else mark (ca s0 ! x))"
      using ih(3) m1 m2 True by auto
    then show ?thesis using step ih(1,2) True by simp
  next
    case False
    have step: "reduceDB_at el ls j (s0, kept) = Some (s0, kept @ [ls ! j])"
      unfolding reduceDB_at_def using cond False by (simp add: Let_def)
    from Cons.IH[OF rest fr Cons.prems(3), of "kept @ [ls ! j]"] obtain s1 where
      ih: "fold_option (reduceDB_at el ls) js (s0, kept @ [ls ! j])
                = Some (s1, (kept @ [ls ! j]) @ map ((!) ls) (filter (\<lambda>i. \<not> deletable s ls i) js))"
       "reduce_frame s s1"
       "\<forall>x. mark (ca s1 ! x) =
                     (if \<exists>i \<in> set js. ls ! i = x \<and> deletable s ls i then 1 else mark (ca s0 ! x))"
      by blast
    have "\<forall>x. mark (ca s1 ! x) =
              (if \<exists>i \<in> set (j # js). ls ! i = x \<and> deletable s ls i then 1 else mark (ca s0 ! x))"
      using ih(3) False by auto
    then show ?thesis using step ih(1,2) False by simp
  qed
qed

lemma mset_insort_by: "mset (insort_by lt x xs) = add_mset x (mset xs)"
  by (induction xs) simp_all

lemma mset_sort_by: "mset (sort_by lt xs) = mset xs"
  unfolding sort_by_def by (induction xs) (simp_all add: mset_insort_by)


text \<open>
  C6. \<open>reduceDB\<close> returns, and it deletes the learnt clause at position \<open>i\<close> of the learnt
  list sorted by \<open>reduceDB_lt\<close> exactly when that clause has more than two literals, is not
  locked, and \<open>i\<close> lies in the first half of the sorted list or the activity is below
  \<open>cla_inc / learnts.size()\<close> (\<open>deletable\<close>): the clauses kept are the others, in their
  sorted order, each deleted clause is marked as removed, and a binary or a locked clause is
  always kept. The sorted list is a permutation of the learnt list.
\<close>

theorem reduceDB_deletes_exactly:
  assumes "\<forall>cr \<in> set (learnts s). cr < length (ca s)" and "distinct (learnts s)"
  defines "ls \<equiv> sort_by (reduceDB_lt s) (learnts s)"
  shows "\<exists>s'. reduceDB s = Some s'
           \<and> mset ls = mset (learnts s)
           \<and> learnts s' = map ((!) ls) (filter (\<lambda>i. \<not> deletable s ls i) [0 ..< length ls])
           \<and> (\<forall>i < length ls. (ls ! i \<notin> set (learnts s')) = deletable s ls i)
           \<and> (\<forall>i < length ls. deletable s ls i \<longrightarrow> mark (ca s' ! (ls ! i)) = 1)
           \<and> (\<forall>cr \<in> set (learnts s).
                  length (lits (ca s ! cr)) = 2 \<or> locked s cr \<longrightarrow> cr \<in> set (learnts s'))"
proof -
  have ms: "mset ls = mset (learnts s)" unfolding ls_def by (rule mset_sort_by)
  then have st: "set ls = set (learnts s)" by (rule mset_eq_setD)
  have dl: "distinct ls" using ms assms(2) by (metis distinct_count_atmost_1 set_mset_mset)
  have len: "length ls = length (learnts s)" using ms by (rule mset_eq_length)
  have rng: "\<forall>i \<in> set [0 ..< length ls]. i < length ls \<and> ls ! i < length (ca s)"
    using assms(1) st by (metis atLeastLessThan_iff nth_mem set_upt)
  have fr: "reduce_frame s (s\<lparr>learnts := ls\<rparr>)" unfolding reduce_frame_def by simp
  have el: "cla_inc s / real (length (learnts s)) = cla_inc s / real (length ls)" using len by simp
  define kept where "kept = map ((!) ls) (filter (\<lambda>i. \<not> deletable s ls i) [0 ..< length ls])"
  from reduceDB_fold[OF rng fr el[symmetric, THEN sym], of "[]"]
  obtain s1 where
    f: "fold_option (reduceDB_at (cla_inc s / real (length (learnts s))) ls) [0 ..< length ls] (s\<lparr>learnts := ls\<rparr>, [])
          = Some (s1, kept)"
    and m: "\<forall>x. mark (ca s1 ! x) =
              (if \<exists>i \<in> set [0 ..< length ls]. ls ! i = x \<and> deletable s ls i then 1
               else mark (ca (s\<lparr>learnts := ls\<rparr>) ! x))"
    unfolding kept_def by auto
  define s' where "s' = checkGarbage (s1\<lparr>learnts := kept\<rparr>)"
  have r: "reduceDB s = Some s'"
    unfolding reduceDB_def Let_def ls_def[symmetric] f s'_def by simp
  have l: "learnts s' = kept" and c: "ca s' = ca s1" unfolding s'_def checkGarbage_def by simp_all
  have mem: "(ls ! i \<notin> set (learnts s')) = deletable s ls i" if "i < length ls" for i
  proof -
    have "ls ! i \<in> set kept \<longleftrightarrow> (\<exists>k < length ls. \<not> deletable s ls k \<and> ls ! k = ls ! i)"
      unfolding kept_def by (force simp: image_iff)
    also have "\<dots> \<longleftrightarrow> \<not> deletable s ls i"
      using that dl by (metis nth_eq_iff_index_eq)
    finally show ?thesis unfolding l by simp
  qed
  have mk: "mark (ca s' ! (ls ! i)) = 1" if "i < length ls" "deletable s ls i" for i
  proof -
    have "\<exists>k \<in> set [0 ..< length ls]. ls ! k = ls ! i \<and> deletable s ls k" using that by auto
    then show ?thesis unfolding c using m by presburger
  qed
  have keep: "cr \<in> set (learnts s')"
    if "cr \<in> set (learnts s)" "length (lits (ca s ! cr)) = 2 \<or> locked s cr" for cr
  proof -
    from that(1) st obtain i where i: "i < length ls" "ls ! i = cr" by (metis in_set_conv_nth)
    have "\<not> deletable s ls i" using that(2) i(2) unfolding deletable_def by auto
    with mem[OF i(1)] i(2) show ?thesis by simp
  qed
  show ?thesis
    using r ms l[unfolded kept_def] mem mk keep by blast
qed

text \<open>
  A database of four learnt clauses: clause 1 has three literals and no activity and is
  deleted; clause 0 has a high activity and lies in the second half, clause 2 is binary,
  clause 3 is the reason of its first literal; these three are kept.
\<close>

definition reduce_example :: solver where
  "reduce_example = Solver_init
     \<lparr>assigns := (\<lambda>_. l_Undef)(3 := l_True), vardata := (\<lambda>_. (None, 0))(3 := (Some 3, 0)),
      trail := [Lit 3 False],
      ca := [\<lparr>lits = [Lit 0 False, Lit 1 False, Lit 2 False], learnt = True, mark = 0, cl_activity = 5\<rparr>,
             \<lparr>lits = [Lit 1 False, Lit 2 False, Lit 4 False], learnt = True, mark = 0, cl_activity = 0\<rparr>,
             \<lparr>lits = [Lit 0 False, Lit 1 False], learnt = True, mark = 0, cl_activity = 0\<rparr>,
             \<lparr>lits = [Lit 3 False, Lit 0 True, Lit 1 True], learnt = True, mark = 0, cl_activity = 0\<rparr>],
      learnts := [0, 1, 2, 3], next_var := 5\<rparr>"

lemma reduce_example_kept:
  "map ((!) (sort_by (reduceDB_lt reduce_example) (learnts reduce_example)))
     (filter (\<lambda>i. \<not> deletable reduce_example (sort_by (reduceDB_lt reduce_example) (learnts reduce_example)) i)
        [0 ..< length (sort_by (reduceDB_lt reduce_example) (learnts reduce_example))]) = [3, 0, 2]"
  by code_simp

theorem reduceDB_deletes_exactly_witness:
  "list_all (\<lambda>cr. cr < length (ca reduce_example)) (learnts reduce_example)
   \<and> distinct (learnts reduce_example)
   \<and> sort_by (reduceDB_lt reduce_example) (learnts reduce_example) = [1, 3, 0, 2]
   \<and> map_option learnts (reduceDB reduce_example) = Some [3, 0, 2]"
proof -
  have h1: "\<forall>cr \<in> set (learnts reduce_example). cr < length (ca reduce_example)"
    by (simp add: reduce_example_def)
  have h2: "distinct (learnts reduce_example)" by (simp add: reduce_example_def)
  have h3: "sort_by (reduceDB_lt reduce_example) (learnts reduce_example) = [1, 3, 0, 2]" by code_simp
  from reduceDB_deletes_exactly[OF h1 h2] obtain s' where
    "reduceDB reduce_example = Some s'" "learnts s' = [3, 0, 2]"
    unfolding reduce_example_kept by blast
  then have "map_option learnts (reduceDB reduce_example) = Some [3, 0, 2]" by simp
  with h1 h2 h3 show ?thesis by (simp add: list_all_iff)
qed

section \<open>Unsatisfiability at the root is permanent\<close>

text \<open>
  \<open>later s t\<close>: the state \<open>t\<close> is reached from \<open>s\<close> by calls of the solver's interface
  (\<open>solve_\<close>, \<open>addClause_\<close>, \<open>simplify\<close>, \<open>newVar\<close>), in any number and order.
\<close>

inductive later :: "solver \<Rightarrow> solver \<Rightarrow> bool" where
  later_refl: "later s s"
| later_solve: "later s t \<Longrightarrow> solve_impl e t = Some (r, t') \<Longrightarrow> later s t'"
| later_addClause: "later s t \<Longrightarrow> addClause_impl t ps = Some (b, t') \<Longrightarrow> later s t'"
| later_simplify: "later s t \<Longrightarrow> simplify t = Some (b, t') \<Longrightarrow> later s t'"
| later_newVar: "later s t \<Longrightarrow> later s (snd (newVar t))"

lemma solve_not_ok:
  assumes "\<not> ok s"
  shows "solve_impl e s = Some (l_False, s\<lparr>model := [], conflict := []\<rparr>)"
  using assms unfolding solve_impl_def Let_def by simp

lemma solve_root_unsat:
  assumes "solve_impl e s = Some (l_False, s')" and "conflict s' = []"
  shows "\<not> ok s'"
proof (cases "ok s")
  case False
  from assms(1)[unfolded solve_not_ok[OF False]] show ?thesis using False by auto
next
  case True
  define s2 where "s2 = (let s0 = s\<lparr>model := [], conflict := []\<rparr>; s1 = s0\<lparr>solves := solves s0 + 1\<rparr>;
                  ml = real_of_int (nClauses s1) * learntsize_factor s1
              in s1\<lparr>max_learnts := (if ml < real_of_int (min_learnts_lim s1)
                                            then real_of_int (min_learnts_lim s1) else ml),
                         learntsize_adjust_confl := real_of_int (learntsize_adjust_start_confl s1),
                         learntsize_adjust_cnt := learntsize_adjust_start_confl s1\<rparr>)"
  have u: "solve_impl e s =
     (case solve_loop e s2 0 of
                    None \<Rightarrow> None
                  | Some (status, s3) \<Rightarrow>
                      let s4 = (if status = l_True
                                then s3\<lparr>model := map (value_var s3) [0 ..< next_var s3]\<rparr>
                                else if status = l_False \<and> length (conflict s3) = 0
                                then s3\<lparr>ok := False\<rparr> else s3)
                      in map_option (\<lambda>s5. (status, s5)) (cancelUntil s4 0))"
    unfolding solve_impl_def s2_def Let_def using True by simp
  from assms(1)[unfolded u] obtain s3 where
    c: "cancelUntil (if length (conflict s3) = 0 then s3\<lparr>ok := False\<rparr> else s3) 0 = Some s'"
    by (auto simp: Let_def split: option.splits if_splits)
  from cancelUntil_unfold(3,5)[OF c] assms(2) show ?thesis by (auto split: if_splits)
qed

lemma later_not_ok:
  assumes "later s t" and "\<not> ok s"
  shows "\<not> ok t"
  using assms
proof (induction rule: later.induct)
  case (later_refl s)
  then show ?case by simp
next
  case (later_solve s t e r t')
  then have "\<not> ok t" by simp
  from later_solve.hyps(2)[unfolded solve_not_ok[OF this]] this show ?case by auto
next
  case (later_addClause s t ps b t')
  then have n: "\<not> ok t" by simp
  have "addClause_impl t ps = None \<or> addClause_impl t ps = Some (False, t)"
    unfolding addClause_impl_def using n by simp
  with later_addClause.hyps(2) n show ?case by auto
next
  case (later_simplify s t b t')
  then have n: "\<not> ok t" by simp
  have "simplify t = None \<or> simplify t = Some (False, t\<lparr>ok := False\<rparr>)"
    unfolding simplify_def using n by simp
  with later_simplify.hyps(2) show ?case by auto
next
  case (later_newVar s t)
  then have n: "\<not> ok t" by simp
  have "ok (snd (newVar t)) = ok t"
    unfolding newVar_def insertVarOrder_def Let_def by simp
  with n show ?case by simp
qed

text \<open>
  C8. When \<open>solve_\<close> returns \<open>l_False\<close> with an empty \<open>conflict\<close>, the solver is not
  \<open>ok\<close>, and it stays so through every later call of its interface: every later \<open>solve_\<close>
  returns \<open>l_False\<close>, and the state it leaves is the state it found with \<open>model\<close> and
  \<open>conflict\<close> cleared, so no search was run (\<open>solves\<close> and \<open>starts\<close> do not move).
\<close>

theorem root_unsat_is_permanent:
  assumes "solve_impl e s = Some (l_False, s')" and "conflict s' = []" and "later s' t"
  shows "\<not> ok t \<and> solve_impl e' t = Some (l_False, t\<lparr>model := [], conflict := []\<rparr>)"
proof -
  have "\<not> ok s'" using assms(1,2) by (rule solve_root_unsat)
  with assms(3) have "\<not> ok t" by (rule later_not_ok)
  with solve_not_ok[OF this] show ?thesis by simp
qed

text \<open>
  The four clauses over two variables that exclude every assignment: the first call of
  \<open>solve_\<close> runs a search, finds the conflict at the root and returns \<open>l_False\<close>; a second
  call, after a new variable and a simplification, returns \<open>l_False\<close> at once.
\<close>

definition unsat_example :: "solver option" where
  "unsat_example =
     fold_option (\<lambda>ps s. map_option snd (addClause_impl s ps))
       [[Lit 0 False, Lit 1 False], [Lit 0 False, Lit 1 True],
        [Lit 0 True, Lit 1 False], [Lit 0 True, Lit 1 True]]
       (snd (newVar (snd (newVar Solver_init))))"

lemma unsat_example_solve:
  "(case unsat_example of
      None \<Rightarrow> False
    | Some s \<Rightarrow> ok s \<and>
        (case solve_impl plain_env s of
           None \<Rightarrow> False
         | Some (r, s') \<Rightarrow> r = l_False \<and> conflict s' = [] \<and> starts s' = 1 \<and>
             (case simplify (snd (newVar s')) of None \<Rightarrow> False | Some (b, t) \<Rightarrow> \<not> b)))"
  by code_simp

theorem root_unsat_is_permanent_witness:
  "\<exists>s s' t. unsat_example = Some s \<and> ok s \<and> solve_impl plain_env s = Some (l_False, s')
     \<and> conflict s' = [] \<and> starts s' = 1 \<and> simplify (snd (newVar s')) = Some (False, t) \<and> later s' t
     \<and> \<not> ok t \<and> solve_impl plain_env t = Some (l_False, t\<lparr>model := [], conflict := []\<rparr>)"
proof -
  from unsat_example_solve obtain s s' t where
    a: "unsat_example = Some s" "ok s" "solve_impl plain_env s = Some (l_False, s')" "conflict s' = []"
       "starts s' = 1" "simplify (snd (newVar s')) = Some (False, t)"
    by (auto split: option.splits)
  have l: "later s' t" by (rule later_simplify[OF later_newVar[OF later_refl] a(6)])
  from root_unsat_is_permanent[OF a(3,4) l, of plain_env] a l show ?thesis by blast
qed

end
